theory Spec2Isabelle
  imports Main "HOL-Library.Word"
begin

unbundle bit_operations_syntax

section \<open>Python strings\<close>

text \<open>
  A Python \<open>str\<close> is modelled as a HOL \<open>string\<close>; a \<open>char\<close> stands for the code
  point of the same number, so the model covers the strings over code points 0 to 255.
  \<open>len\<close> is \<open>length\<close>.
\<close>

definition lstrip :: "string \<Rightarrow> string \<Rightarrow> string" where
  \<comment> \<open>\<open>s.lstrip(chars)\<close>\<close>
  "lstrip chars s = dropWhile (\<lambda>c. c \<in> set chars) s"

definition rstrip :: "string \<Rightarrow> string \<Rightarrow> string" where
  \<comment> \<open>\<open>s.rstrip(chars)\<close>\<close>
  "rstrip chars s = rev (dropWhile (\<lambda>c. c \<in> set chars) (rev s))"

definition strip :: "string \<Rightarrow> string \<Rightarrow> string" where
  \<comment> \<open>\<open>s.strip(chars)\<close>\<close>
  "strip chars s = rstrip chars (lstrip chars s)"

definition whitespace :: string where
  \<comment> \<open>the code points below 256 for which \<open>str.isspace\<close> holds\<close>
  "whitespace = [CHR 0x09, CHR 0x0A, CHR 0x0B, CHR 0x0C, CHR 0x0D, CHR 0x1C, CHR 0x1D,
                 CHR 0x1E, CHR 0x1F, CHR 0x20, CHR 0x85, CHR 0xA0]"

definition startswith :: "string \<Rightarrow> string \<Rightarrow> bool" where
  "startswith s p = (take (length p) s = p)"

definition before :: "char \<Rightarrow> string \<Rightarrow> string" where
  \<comment> \<open>\<open>s[:s.find(c)]\<close>, all of \<open>s\<close> when \<open>c\<close> does not occur\<close>
  "before c s = takeWhile (\<lambda>x. x \<noteq> c) s"

definition after :: "char \<Rightarrow> string \<Rightarrow> string" where
  \<comment> \<open>\<open>s[s.find(c)+1:]\<close>, empty when \<open>c\<close> does not occur\<close>
  "after c s = drop 1 (dropWhile (\<lambda>x. x \<noteq> c) s)"

definition ascii_lowercase :: string where
  "ascii_lowercase = ''abcdefghijklmnopqrstuvwxyz''"

definition ascii_uppercase :: string where
  "ascii_uppercase = ''ABCDEFGHIJKLMNOPQRSTUVWXYZ''"

definition lower_char :: "char \<Rightarrow> char" where
  "lower_char c = (case map_of (zip ascii_uppercase ascii_lowercase) c of Some d \<Rightarrow> d | None \<Rightarrow> c)"

definition lower :: "string \<Rightarrow> string" where
  \<comment> \<open>\<open>s.lower()\<close>, used on ASCII text only\<close>
  "lower s = map lower_char s"

section \<open>urllib.parse\<close>

text \<open>
  \<open>urlsplit\<close> and \<open>urlparse\<close> of CPython 3.11. They raise \<open>ValueError\<close> on a
  network location with unbalanced or ill-filled brackets. Whether the text between the
  brackets is an IPv6 address is decided by the \<open>ipaddress\<close> module; that decision is the
  parameter \<open>is_ipv6\<close>. \<open>_checknetloc\<close> only rejects characters whose NFKC form
  contains one of \<open>/?#@:\<close>; no code point below 256 has such a form, so it never raises
  here.
\<close>

datatype error = ValueError

record parse_result =
  scheme :: string
  netloc :: string
  path :: string
  params :: string
  query :: string
  fragment :: string

definition uses_params :: "string list" where
  "uses_params = ['''', ''ftp'', ''hdl'', ''prospero'', ''http'', ''imap'',
                  ''https'', ''shttp'', ''rtsp'', ''rtsps'', ''rtspu'', ''sip'',
                  ''sips'', ''mms'', ''sftp'', ''tel'']"

definition scheme_chars :: string where
  "scheme_chars = ascii_lowercase @ ascii_uppercase @ ''0123456789'' @ ''+-.''"

definition c0_control_or_space :: string where
  \<comment> \<open>the code points 0 to 32\<close>
  "c0_control_or_space =
     [CHR 0x00, CHR 0x01, CHR 0x02, CHR 0x03, CHR 0x04, CHR 0x05, CHR 0x06, CHR 0x07,
      CHR 0x08, CHR 0x09, CHR 0x0A, CHR 0x0B, CHR 0x0C, CHR 0x0D, CHR 0x0E, CHR 0x0F,
      CHR 0x10, CHR 0x11, CHR 0x12, CHR 0x13, CHR 0x14, CHR 0x15, CHR 0x16, CHR 0x17,
      CHR 0x18, CHR 0x19, CHR 0x1A, CHR 0x1B, CHR 0x1C, CHR 0x1D, CHR 0x1E, CHR 0x1F,
      CHR 0x20]"

definition unsafe_url_bytes :: string where
  "unsafe_url_bytes = [CHR 0x09, CHR 0x0D, CHR 0x0A]"

definition split_scheme :: "string \<Rightarrow> string \<times> string" where
  \<comment> \<open>\<open>i = url.find(':')\<close>; a scheme is split off when \<open>i > 0\<close>, \<open>url[0]\<close> is an ASCII
      letter and \<open>url[:i]\<close> has scheme characters only\<close>
  "split_scheme url =
     (if CHR '':'' \<in> set url \<and> before CHR '':'' url \<noteq> []
         \<and> hd url \<in> set (ascii_lowercase @ ascii_uppercase)
         \<and> (\<forall>c \<in> set (before CHR '':'' url). c \<in> set scheme_chars)
      then (lower (before CHR '':'' url), after CHR '':'' url)
      else ('''', url))"

definition splitnetloc :: "string \<Rightarrow> string \<times> string" where
  \<comment> \<open>\<open>_splitnetloc(url, 2)\<close>: the text after the two slashes up to the first of \<open>/?#\<close>\<close>
  "splitnetloc url =
     (takeWhile (\<lambda>c. c \<notin> set ''/?#'') (drop 2 url),
      dropWhile (\<lambda>c. c \<notin> set ''/?#'') (drop 2 url))"

definition hex_letters :: string where
  "hex_letters = ''abcdefABCDEF0123456789''"

definition check_bracketed_host :: "(string \<Rightarrow> bool) \<Rightarrow> string \<Rightarrow> bool" where
  \<comment> \<open>\<open>_check_bracketed_host\<close> returns; the IPvFuture pattern is \<open>v[a-fA-F0-9]+\..+\<close>\<close>
  "check_bracketed_host is_ipv6 hostname =
     (if startswith hostname ''v''
      then (let digits = takeWhile (\<lambda>c. c \<in> set hex_letters) (drop 1 hostname);
                rest = dropWhile (\<lambda>c. c \<in> set hex_letters) (drop 1 hostname)
            in digits \<noteq> [] \<and> startswith rest ''.'' \<and> drop 1 rest \<noteq> []
               \<and> CHR 0x0A \<notin> set (drop 1 rest))
      else is_ipv6 hostname)"

definition netloc_ok :: "(string \<Rightarrow> bool) \<Rightarrow> string \<Rightarrow> bool" where
  \<comment> \<open>the checks of \<open>urlsplit\<close> on the network location pass\<close>
  "netloc_ok is_ipv6 nl =
     (if CHR ''['' \<in> set nl \<and> CHR '']'' \<notin> set nl \<or> CHR '']'' \<in> set nl \<and> CHR ''['' \<notin> set nl
      then False
      else if CHR ''['' \<in> set nl \<and> CHR '']'' \<in> set nl
      then check_bracketed_host is_ipv6 (before CHR '']'' (after CHR ''['' nl))
      else True)"

definition urlsplit :: "(string \<Rightarrow> bool) \<Rightarrow> string \<Rightarrow> error + parse_result" where
  "urlsplit is_ipv6 url0 =
     (let url1 = filter (\<lambda>c. c \<notin> set unsafe_url_bytes) (lstrip c0_control_or_space url0);
          (sch, url2) = split_scheme url1;
          (nl, url3) = (if take 2 url2 = ''//'' then splitnetloc url2 else ('''', url2))
      in if take 2 url2 = ''//'' \<and> \<not> netloc_ok is_ipv6 nl then Inl ValueError
         else Inr \<lparr>scheme = sch, netloc = nl,
                   path = before CHR ''?'' (before CHR ''#'' url3),
                   params = '''',
                   query = after CHR ''?'' (before CHR ''#'' url3),
                   fragment = after CHR ''#'' url3\<rparr>)"

definition last_segment :: "string \<Rightarrow> string" where
  \<comment> \<open>\<open>url[url.rfind('/')+1:]\<close>\<close>
  "last_segment url = rev (takeWhile (\<lambda>c. c \<noteq> CHR ''/'') (rev url))"

definition splitparams :: "string \<Rightarrow> string \<times> string" where
  \<comment> \<open>\<open>_splitparams\<close>: the parameters start at the first \<open>;\<close> of the last segment\<close>
  "splitparams url =
     (if CHR ''/'' \<in> set url
      then (if CHR '';'' \<notin> set (last_segment url) then (url, '''')
            else (take (length url - length (last_segment url)) url
                    @ before CHR '';'' (last_segment url),
                  after CHR '';'' (last_segment url)))
      else (before CHR '';'' url, after CHR '';'' url))"

definition urlparse :: "(string \<Rightarrow> bool) \<Rightarrow> string \<Rightarrow> error + parse_result" where
  "urlparse is_ipv6 url =
     (case urlsplit is_ipv6 url of
        Inl e \<Rightarrow> Inl e
      | Inr r \<Rightarrow>
          if scheme r \<in> set uses_params \<and> CHR '';'' \<in> set (path r)
          then Inr (r\<lparr>path := fst (splitparams (path r)), params := snd (splitparams (path r))\<rparr>)
          else Inr r)"

section \<open>MarkdownExtractor: the URL normalizer\<close>

definition normalize_url :: "(string \<Rightarrow> bool) \<Rightarrow> string \<Rightarrow> error + string" where
  \<comment> \<open>\<open>_normalize_url\<close>\<close>
  "normalize_url is_ipv6 url =
     (case urlparse is_ipv6 url of
        Inl e \<Rightarrow> Inl e
      | Inr p \<Rightarrow> Inr (rstrip ''/'' (scheme p @ ''://'' @ netloc p @ path p)))"

section \<open>hashlib.md5\<close>

text \<open>
  MD5 as in RFC 1321, on bytes given as integers 0 to 255; the four state words are
  32-bit machine words. \<open>encode\<close> is \<open>str.encode()\<close>, UTF-8, on code points below 256.
\<close>

definition encode :: "string \<Rightarrow> int list" where
  "encode s = concat (map (\<lambda>c. if (of_char c :: int) < 128 then [of_char c]
                                  else [192 + of_char c div 64, 128 + of_char c mod 64]) s)"

definition md5_s :: "nat list" where
  "md5_s = [7, 12, 17, 22, 7, 12, 17, 22, 7, 12, 17, 22, 7, 12, 17, 22,
            5, 9, 14, 20, 5, 9, 14, 20, 5, 9, 14, 20, 5, 9, 14, 20,
            4, 11, 16, 23, 4, 11, 16, 23, 4, 11, 16, 23, 4, 11, 16, 23,
            6, 10, 15, 21, 6, 10, 15, 21, 6, 10, 15, 21, 6, 10, 15, 21]"

definition md5_K :: "32 word list" where
  "md5_K = [0xd76aa478, 0xe8c7b756, 0x242070db, 0xc1bdceee,
            0xf57c0faf, 0x4787c62a, 0xa8304613, 0xfd469501,
            0x698098d8, 0x8b44f7af, 0xffff5bb1, 0x895cd7be,
            0x6b901122, 0xfd987193, 0xa679438e, 0x49b40821,
            0xf61e2562, 0xc040b340, 0x265e5a51, 0xe9b6c7aa,
            0xd62f105d, 0x02441453, 0xd8a1e681, 0xe7d3fbc8,
            0x21e1cde6, 0xc33707d6, 0xf4d50d87, 0x455a14ed,
            0xa9e3e905, 0xfcefa3f8, 0x676f02d9, 0x8d2a4c8a,
            0xfffa3942, 0x8771f681, 0x6d9d6122, 0xfde5380c,
            0xa4beea44, 0x4bdecfa9, 0xf6bb4b60, 0xbebfbc70,
            0x289b7ec6, 0xeaa127fa, 0xd4ef3085, 0x04881d05,
            0xd9d4d039, 0xe6db99e5, 0x1fa27cf8, 0xc4ac5665,
            0xf4292244, 0x432aff97, 0xab9423a7, 0xfc93a039,
            0x655b59c3, 0x8f0ccc92, 0xffeff47d, 0x85845dd1,
            0x6fa87e4f, 0xfe2ce6e0, 0xa3014314, 0x4e0811a1,
            0xf7537e82, 0xbd3af235, 0x2ad7d2bb, 0xeb86d391]"

fun le_int :: "int list \<Rightarrow> int" where
  "le_int [] = 0"
| "le_int (b # bs) = b + 256 * le_int bs"

fun le_bytes :: "nat \<Rightarrow> int \<Rightarrow> int list" where
  "le_bytes 0 n = []"
| "le_bytes (Suc k) n = n mod 256 # le_bytes k (n div 256)"

definition md5_pad :: "int list \<Rightarrow> int list" where
  \<comment> \<open>a 1 bit, zeros up to 56 modulo 64 bytes, then the bit length in 8 bytes\<close>
  "md5_pad m = m @ [128] @ replicate ((119 - length m mod 64) mod 64) 0
                 @ le_bytes 8 ((8 * int (length m)) mod 2 ^ 64)"

fun words_of :: "int list \<Rightarrow> 32 word list" where
  "words_of (a # b # c # d # bs) = word_of_int (le_int [a, b, c, d]) # words_of bs"
| "words_of _ = []"

fun md5_F :: "nat \<Rightarrow> 32 word \<Rightarrow> 32 word \<Rightarrow> 32 word \<Rightarrow> 32 word" where
  "md5_F i B C D =
     (if i < 16 then (B AND C) OR (NOT B AND D)
      else if i < 32 then (D AND B) OR (NOT D AND C)
      else if i < 48 then B XOR C XOR D
      else C XOR (B OR NOT D))"

fun md5_g :: "nat \<Rightarrow> nat" where
  "md5_g i =
     (if i < 16 then i
      else if i < 32 then (5 * i + 1) mod 16
      else if i < 48 then (3 * i + 5) mod 16
      else (7 * i) mod 16)"

fun md5_round :: "32 word list \<Rightarrow> nat \<Rightarrow> 32 word \<times> 32 word \<times> 32 word \<times> 32 word
    \<Rightarrow> 32 word \<times> 32 word \<times> 32 word \<times> 32 word" where
  "md5_round M i (A, B, C, D) =
     (D, B + word_rotl (md5_s ! i) (md5_F i B C D + A + md5_K ! i + M ! md5_g i), B, C)"

fun add_state :: "32 word \<times> 32 word \<times> 32 word \<times> 32 word
    \<Rightarrow> 32 word \<times> 32 word \<times> 32 word \<times> 32 word
    \<Rightarrow> 32 word \<times> 32 word \<times> 32 word \<times> 32 word" where
  "add_state (a0, b0, c0, d0) (A, B, C, D) = (a0 + A, b0 + B, c0 + C, d0 + D)"

definition md5_block :: "32 word \<times> 32 word \<times> 32 word \<times> 32 word \<Rightarrow> 32 word list
    \<Rightarrow> 32 word \<times> 32 word \<times> 32 word \<times> 32 word" where
  "md5_block h M = add_state h (fold (md5_round M) [0..<64] h)"

fun blocks :: "'a list \<Rightarrow> 'a list list" where
  "blocks ws = (if length ws < 16 then [] else take 16 ws # blocks (drop 16 ws))"

declare blocks.simps [simp del]

fun digest_bytes :: "32 word \<times> 32 word \<times> 32 word \<times> 32 word \<Rightarrow> int list" where
  "digest_bytes (a, b, c, d) =
     le_bytes 4 (uint a) @ le_bytes 4 (uint b) @ le_bytes 4 (uint c) @ le_bytes 4 (uint d)"

definition md5 :: "int list \<Rightarrow> int list" where
  "md5 m = digest_bytes (fold (\<lambda>M h. md5_block h M) (blocks (words_of (md5_pad m)))
             (0x67452301, 0xefcdab89, 0x98badcfe, 0x10325476))"

definition hex_byte :: "int \<Rightarrow> string" where
  "hex_byte b = [''0123456789abcdef'' ! nat (b div 16), ''0123456789abcdef'' ! nat (b mod 16)]"

definition hexdigest :: "int list \<Rightarrow> string" where
  "hexdigest bs = concat (map hex_byte bs)"

section \<open>os.path\<close>

text \<open>The POSIX flavour, \<open>posixpath\<close>.\<close>

definition join :: "string \<Rightarrow> string \<Rightarrow> string" where
  \<comment> \<open>\<open>os.path.join(a, b)\<close>\<close>
  "join a b =
     (if startswith b ''/'' then b
      else if a = [] \<or> last a = CHR ''/'' then a @ b
      else a @ ''/'' @ b)"

definition dirname :: "string \<Rightarrow> string" where
  \<comment> \<open>\<open>os.path.dirname(p)\<close>\<close>
  "dirname p =
     (let head = take (length p - length (last_segment p)) p
      in if head \<noteq> [] \<and> (\<exists>c \<in> set head. c \<noteq> CHR ''/'') then rstrip ''/'' head else head)"

definition parent_and_tail :: "string \<Rightarrow> string \<times> string" where
  \<comment> \<open>\<open>head, tail = path.split(name)\<close>, and once more on \<open>head\<close> when \<open>tail\<close> is empty;
      \<open>path.split(p)\<close> is \<open>(dirname(p), p[p.rfind('/')+1:])\<close>\<close>
  "parent_and_tail name =
     (if last_segment name = [] then (dirname (dirname name), last_segment (dirname name))
      else (dirname name, last_segment name))"

function makedirs :: "string \<Rightarrow> string set \<Rightarrow> string set" where
  \<comment> \<open>\<open>os.makedirs(name, exist_ok=True)\<close> on the set of directories that exist: the
      missing intermediate directories are made first; \<open>mkdir\<close> is taken to succeed\<close>
  "makedirs name ds =
     (if fst (parent_and_tail name) \<noteq> [] \<and> snd (parent_and_tail name) \<noteq> []
         \<and> fst (parent_and_tail name) \<notin> ds
      then (if snd (parent_and_tail name) = ''.'' then makedirs (fst (parent_and_tail name)) ds
            else insert name (makedirs (fst (parent_and_tail name)) ds))
      else insert name ds)"
  by pat_completeness auto
termination
proof (relation "measure (\<lambda>(name, ds). length name)")
  have r: "length (rstrip ''/'' s) \<le> length s" for s
    unfolding rstrip_def by (metis length_rev length_dropWhile_le)
  have l: "length (last_segment x) \<le> length x" for x
    unfolding last_segment_def by (metis length_rev length_takeWhile_le)
  have d: "length (dirname x) + length (last_segment x) \<le> length x" for x
    using r [of "take (length x - length (last_segment x)) x"] l [of x]
    by (auto simp: dirname_def Let_def)
  have p: "length (fst (parent_and_tail name)) < length name"
    if "snd (parent_and_tail name) \<noteq> []" for name
  proof (cases "last_segment name = []")
    case True
    with that have "last_segment (dirname name) \<noteq> []" by (simp add: parent_and_tail_def)
    then have "0 < length (last_segment (dirname name))" by simp
    with d [of "dirname name"] d [of name] have "length (dirname (dirname name)) < length name"
      by linarith
    with True show ?thesis by (simp add: parent_and_tail_def)
  next
    case False
    then have "0 < length (last_segment name)" by simp
    with d [of name] have "length (dirname name) < length name" by linarith
    with False show ?thesis by (simp add: parent_and_tail_def)
  qed
  show "wf (measure (\<lambda>(name, ds). length name))" by simp
  show "((fst (parent_and_tail name), ds), name, ds) \<in> measure (\<lambda>(name, ds). length name)"
    if "fst (parent_and_tail name) \<noteq> [] \<and> snd (parent_and_tail name) \<noteq> []
          \<and> fst (parent_and_tail name) \<notin> ds" for name ds
    using that p [of name] by simp
  then show "((fst (parent_and_tail name), ds), name, ds) \<in> measure (\<lambda>(name, ds). length name)"
    if "fst (parent_and_tail name) \<noteq> [] \<and> snd (parent_and_tail name) \<noteq> []
          \<and> fst (parent_and_tail name) \<notin> ds" for name ds
    using that by simp
qed

declare makedirs.simps [simp del]

section \<open>MarkdownExtractor: file names and paths\<close>

definition unsafe_filename_chars :: string where
  \<comment> \<open>the class \<open>[<>:"/\\|?*]\<close>\<close>
  "unsafe_filename_chars =
     [CHR ''<'', CHR ''>'', CHR '':'', CHR 0x22, CHR ''/'', CHR 0x5C, CHR ''|'', CHR ''?'', CHR ''*'']"

definition filename_from_url :: "(string \<Rightarrow> bool) \<Rightarrow> string \<Rightarrow> error + string" where
  \<comment> \<open>\<open>_filename_from_url\<close>\<close>
  "filename_from_url is_ipv6 url =
     (case urlparse is_ipv6 url of
        Inl e \<Rightarrow> Inl e
      | Inr p \<Rightarrow>
          let path0 = (if strip ''/'' (path p) = [] then ''index'' else strip ''/'' (path p));
              safe = map (\<lambda>c. if c \<in> set unsafe_filename_chars then CHR ''_'' else c) path0;
              short = (if length safe > 50 then drop (length safe - 50) safe else safe)
          in Inr (short @ ''.md''))"

definition hash_prefix_of :: "string \<Rightarrow> string" where
  \<comment> \<open>\<open>hashlib.md5(final_url.encode()).hexdigest()[:8]\<close>\<close>
  "hash_prefix_of final_url = take 8 (hexdigest (md5 (encode final_url)))"

definition folder_of :: "string \<Rightarrow> string option \<Rightarrow> string \<Rightarrow> string" where
  \<comment> \<open>lines 107 to 109\<close>
  "folder_of base_folder parent_folder final_url =
     join (case parent_folder of None \<Rightarrow> base_folder | Some pf \<Rightarrow> join base_folder pf)
          (hash_prefix_of final_url)"

definition filepath_of :: "string \<Rightarrow> string \<Rightarrow> string" where
  \<comment> \<open>lines 114 to 119: the path of the file, with the fallback for long paths\<close>
  "filepath_of folder filename =
     (if length (join folder filename) > 240
      then join folder (take 10 (hexdigest (md5 (encode (join folder filename)))) @ ''.md'')
      else join folder filename)"

definition build_path :: "(string \<Rightarrow> bool) \<Rightarrow> string \<Rightarrow> string option \<Rightarrow> string \<Rightarrow> error + string" where
  \<comment> \<open>lines 107 to 119: the path builder; \<open>ValueError\<close> if the URL does not parse\<close>
  "build_path is_ipv6 base_folder parent_folder final_url =
     (case filename_from_url is_ipv6 final_url of
        Inl e \<Rightarrow> Inl e
      | Inr filename \<Rightarrow> Inr (filepath_of (folder_of base_folder parent_folder final_url) filename))"

section \<open>MarkdownExtractor: the crawl\<close>

text \<open>
  The collaborators are parameters of the model. A request is what \<open>requests.get\<close> is
  called with. A response is what the code reads of it: \<open>resp.url\<close>, and what
  BeautifulSoup and markdownify make of \<open>resp.text\<close>, namely the main content region if
  one is found, as the \<open>href\<close> values of its \<open><a href=...>\<close> tags in document order and
  the Markdown text of the region after the layout tags are removed. \<open>http_get\<close> gets the
  requests made so far and the new request; \<open>None\<close> is any exception of the \<open>try\<close> block
  (transport error, timeout, or \<open>raise_for_status\<close> on a status that is not 2xx).
  File system calls are taken to succeed.
\<close>

record request =
  req_url :: string
  req_user_agent :: string
  req_allow_redirects :: bool
  req_timeout :: nat

record region =
  hrefs :: "string list"
  markdown :: string

record response =
  resp_url :: string
  resp_main :: "region option"

record env =
  base_folder :: string
  max_depth :: int
  valid_ipv6 :: "string \<Rightarrow> bool"
  urljoin :: "string \<Rightarrow> string \<Rightarrow> error + string"
  http_get :: "request list \<Rightarrow> request \<Rightarrow> response option"

datatype log_line =
    Processing int string
  | Failed string
  | Skip string
  | NoMainContent
  | Saved string

record document =
  doc_path :: string
  doc_source :: string
  doc_body :: string

definition file_text :: "document \<Rightarrow> string" where
  \<comment> \<open>what lines 124 and 125 write\<close>
  "file_text d = ''---'' @ [CHR 0x0A] @ ''source: '' @ doc_source d @ [CHR 0x0A] @ ''---''
                   @ [CHR 0x0A, CHR 0x0A] @ doc_body d"

text \<open>
  The state: \<open>self.visited_urls\<close>, the directories that exist, the files written (oldest
  first; opening with mode \<open>w\<close> replaces a file of the same path), the requests sent and
  the lines printed.
\<close>

record state =
  visited_urls :: "string set"
  dirs :: "string set"
  written :: "document list"
  requests :: "request list"
  stdout :: "log_line list"

definition file_system :: "state \<Rightarrow> string \<Rightarrow> string option" where
  "file_system s = map_of (rev (map (\<lambda>d. (doc_path d, file_text d)) (written s)))"

definition init :: "env \<Rightarrow> state" where
  \<comment> \<open>\<open>__init__\<close>\<close>
  "init E = \<lparr>visited_urls = {}, dirs = makedirs (base_folder E) {}, written = [], requests = [],
              stdout = []\<rparr>"

definition get_request :: "string \<Rightarrow> request" where
  "get_request url =
     \<lparr>req_url = url,
      req_user_agent = ''Mozilla/5.0 (Windows NT 10.0; Win64; x64) Chrome/126 Safari/537.36'',
      req_allow_redirects = True,
      req_timeout = 60\<rparr>"

definition print :: "log_line \<Rightarrow> state \<Rightarrow> state" where
  "print l s = s\<lparr>stdout := stdout s @ [l]\<rparr>"

fun link_loop :: "env \<Rightarrow> string \<Rightarrow> string \<Rightarrow> string list \<Rightarrow> string list \<Rightarrow> error + string list" where
  \<comment> \<open>lines 79 to 93; the last argument is \<open>links\<close>\<close>
  "link_loop E final_url base_domain [] links = Inr links"
| "link_loop E final_url base_domain (a # as) links =
     (let href = strip whitespace a
      in if href = [] \<or> startswith href ''#'' then link_loop E final_url base_domain as links
         else case urljoin E final_url href of
                Inl e \<Rightarrow> Inl e
              | Inr full_link \<Rightarrow>
                  (case normalize_url (valid_ipv6 E) full_link of
                     Inl e \<Rightarrow> Inl e
                   | Inr norm_link \<Rightarrow>
                       (case urlparse (valid_ipv6 E) norm_link of
                          Inl e \<Rightarrow> Inl e
                        | Inr q \<Rightarrow>
                            if netloc q \<noteq> base_domain
                            then link_loop E final_url base_domain as links
                            else if norm_link = final_url
                            then link_loop E final_url base_domain as links
                            else link_loop E final_url base_domain as (links @ [norm_link]))))"

definition discover_links :: "env \<Rightarrow> string \<Rightarrow> string list \<Rightarrow> error + string list" where
  \<comment> \<open>lines 76 to 93\<close>
  "discover_links E final_url as =
     (case urlparse (valid_ipv6 E) final_url of
        Inl e \<Rightarrow> Inl e
      | Inr p \<Rightarrow> link_loop E final_url (netloc p) as [])"

definition save :: "env \<Rightarrow> string \<Rightarrow> string option \<Rightarrow> string \<Rightarrow> state \<Rightarrow> error option \<times> state" where
  \<comment> \<open>lines 107 to 130\<close>
  "save E final_url parent_folder markdown_text s =
     (let s1 = s\<lparr>dirs := makedirs (folder_of (base_folder E) parent_folder final_url) (dirs s)\<rparr>
      in case build_path (valid_ipv6 E) (base_folder E) parent_folder final_url of
           Inl e \<Rightarrow> (Some e, s1)
         | Inr filepath \<Rightarrow>
             (None,
              print (Saved filepath)
                (s1\<lparr>dirs := makedirs (dirname filepath) (dirs s1),
                    written := written s1 @ [\<lparr>doc_path = filepath, doc_source = final_url,
                                              doc_body = markdown_text\<rparr>]\<rparr>)
              \<lparr>visited_urls := insert final_url (visited_urls s1)\<rparr>))"

datatype step = Leave "error option" | Recurse "string list" string

definition visit :: "env \<Rightarrow> string \<Rightarrow> int \<Rightarrow> string option \<Rightarrow> state \<Rightarrow> step \<times> state" where
  \<comment> \<open>lines 38 to 130 of \<open>fetch_and_save\<close>: one page, up to the recursive step.
      \<open>Leave\<close> is a return or an exception; \<open>Recurse\<close> carries \<open>links\<close> and
      \<open>hash_prefix\<close>.\<close>
  "visit E url depth parent_folder s =
     (case normalize_url (valid_ipv6 E) url of
        Inl e \<Rightarrow> (Leave (Some e), s)
      | Inr normalized_url \<Rightarrow>
          let s1 = print (Processing depth normalized_url) s;
              s2 = s1\<lparr>requests := requests s1 @ [get_request normalized_url]\<rparr>
          in case http_get E (requests s1) (get_request normalized_url) of
               None \<Rightarrow> (Leave None, print (Failed normalized_url) s2)
             | Some resp \<Rightarrow>
                 (case normalize_url (valid_ipv6 E) (resp_url resp) of
                    Inl e \<Rightarrow> (Leave (Some e), s2)
                  | Inr final_url \<Rightarrow>
                      if final_url \<in> visited_urls s2 then (Leave None, print (Skip final_url) s2)
                      else case resp_main resp of
                             None \<Rightarrow> (Leave None, print NoMainContent s2)
                           | Some main_content \<Rightarrow>
                               (case discover_links E final_url (hrefs main_content) of
                                  Inl e \<Rightarrow> (Leave (Some e), s2)
                                | Inr links \<Rightarrow>
                                    (case save E final_url parent_folder (markdown main_content) s2 of
                                       (Some e, s3) \<Rightarrow> (Leave (Some e), s3)
                                     | (None, s3) \<Rightarrow> (Recurse links (hash_prefix_of final_url), s3)))))"

function fetch_and_save :: "env \<Rightarrow> string \<Rightarrow> int \<Rightarrow> string option \<Rightarrow> state \<Rightarrow> error option \<times> state"
  and for_links :: "env \<Rightarrow> string list \<Rightarrow> int \<Rightarrow> string \<Rightarrow> state \<Rightarrow> error option \<times> state" where
  "fetch_and_save E url depth parent_folder s =
     (case visit E url depth parent_folder s of
        (Leave r, s') \<Rightarrow> (r, s')
      | (Recurse links hash_prefix, s') \<Rightarrow>
          if depth < max_depth E then for_links E links (depth + 1) hash_prefix s'
          else (None, s'))"
| "for_links E [] depth parent_folder s = (None, s)"
| "for_links E (link # links) depth parent_folder s =
     (case fetch_and_save E link depth (Some parent_folder) s of
        (Some e, s') \<Rightarrow> (Some e, s')
      | (None, s') \<Rightarrow> for_links E links depth parent_folder s')"
  by pat_completeness auto
termination
  by (relation "measures
        [\<lambda>x. case x of Inl (E, url, depth, parent_folder, s) \<Rightarrow> nat (max_depth E + 1 - depth)
                      | Inr (E, links, depth, parent_folder, s) \<Rightarrow> nat (max_depth E + 1 - depth),
         \<lambda>x. case x of Inl (E, url, depth, parent_folder, s) \<Rightarrow> 0
                      | Inr (E, links, depth, parent_folder, s) \<Rightarrow> Suc (length links)]")
     auto

declare fetch_and_save.simps [simp del]

definition canonical_scheme_chars :: string where
  "canonical_scheme_chars = ascii_lowercase @ ''0123456789'' @ ''+-.''"

definition scheme_wf :: "string \<Rightarrow> bool" where
  "scheme_wf sch \<longleftrightarrow> sch = [] \<or> hd sch \<in> set ascii_lowercase \<and> set sch \<subseteq> set canonical_scheme_chars"

definition strip_single_slash :: "string \<Rightarrow> string" where
  "strip_single_slash s = (if s \<noteq> [] \<and> last s = CHR ''/'' then butlast s else s)"

definition spec_normalize :: "(string \<Rightarrow> bool) \<Rightarrow> string \<Rightarrow> error + string" where
  "spec_normalize is_ipv6 url =
     (case urlparse is_ipv6 url of
        Inl e \<Rightarrow> Inl e
      | Inr p \<Rightarrow> Inr (scheme p @ ''://'' @ netloc p @ strip_single_slash (path p)))"

definition hexdigits :: string where
  "hexdigits = ''0123456789abcdef''"

definition processed :: "log_line list \<Rightarrow> string list" where
  \<comment> \<open>the URLs of the \<open>Processing\<close> lines, in order\<close>
  "processed out = concat (map (\<lambda>l. case l of Processing k u \<Rightarrow> [u] | _ \<Rightarrow> []) out)"

definition link_of :: "env \<Rightarrow> string \<Rightarrow> string \<Rightarrow> string \<Rightarrow> string option" where
  \<comment> \<open>what one pass of the loop of lines 79 to 93 appends for the \<open>href\<close> value \<open>a\<close>, if
      anything, when nothing raises\<close>
  "link_of E final_url base_domain a =
     (let href = strip whitespace a
      in if href = [] \<or> startswith href ''#'' then None
         else case urljoin E final_url href of
                Inl e \<Rightarrow> None
              | Inr full_link \<Rightarrow>
                  (case normalize_url (valid_ipv6 E) full_link of
                     Inl e \<Rightarrow> None
                   | Inr norm_link \<Rightarrow>
                       (case urlparse (valid_ipv6 E) norm_link of
                          Inl e \<Rightarrow> None
                        | Inr q \<Rightarrow>
                            if netloc q = base_domain \<and> norm_link \<noteq> final_url
                            then Some norm_link else None)))"

definition extends :: "state \<Rightarrow> state \<Rightarrow> bool" where
  \<comment> \<open>the second state has all of the first and more: lines, requests, documents and
      visited URLs are only added, one request for each \<open>Processing\<close> line\<close>
  "extends s s' \<longleftrightarrow>
     (\<exists>out rs ds. stdout s' = stdout s @ out \<and> requests s' = requests s @ rs
        \<and> written s' = written s @ ds \<and> processed out = map req_url rs
        \<and> visited_urls s \<subseteq> visited_urls s')"

definition one_per_url :: "state \<Rightarrow> bool" where
  \<comment> \<open>no two documents have the same source, and every source is in \<open>visited_urls\<close>\<close>
  "one_per_url s \<longleftrightarrow>
     distinct (map doc_source (written s)) \<and> doc_source ` set (written s) \<subseteq> visited_urls s"

section \<open>A sample site\<close>

text \<open>
  A site of five pages on one host. The root page links to two pages whose URLs have MD5
  digests with the same first eight hexadecimal digits (\<open>202ab455\<close>) and the same file
  name, to the first of them a second time, to a page that cannot be fetched, to another
  host and to a fragment of itself. The first page links to a page one level further down.
  All links are absolute, so \<open>urljoin\<close> returns them as they are.
\<close>

definition page_one :: string where
  "page_one = ''http://h/a_a/a_a_a/a_a_a/a_a/a_a/a_a/a_a/a_a_a_a_a''"

definition page_two :: string where
  "page_two = ''http://h/a_a_a_a/a_a/a/a_a_a_a_a_a/a/a/a/a/a_a_a_a''"

definition sample_web :: "request list \<Rightarrow> request \<Rightarrow> response option" where
  "sample_web past r =
     (if req_url r = ''http://h''
      then Some \<lparr>resp_url = ''http://h/'',
                 resp_main = Some \<lparr>hrefs = [page_one, ''http://other.example.com/x'', ''#top'',
                                              page_two, page_one, ''http://h/missing''],
                                     markdown = ''# Root''\<rparr>\<rparr>
      else if req_url r = page_one
      then Some \<lparr>resp_url = page_one,
                 resp_main = Some \<lparr>hrefs = [''http://h/deeper''], markdown = ''# One''\<rparr>\<rparr>
      else if req_url r = page_two
      then Some \<lparr>resp_url = page_two,
                 resp_main = Some \<lparr>hrefs = [], markdown = ''# Two''\<rparr>\<rparr>
      else if req_url r = ''http://h/deeper''
      then Some \<lparr>resp_url = ''http://h/deeper'',
                 resp_main = Some \<lparr>hrefs = [], markdown = ''# Deeper''\<rparr>\<rparr>
      else None)"

definition sample_env :: env where
  "sample_env = \<lparr>base_folder = ''output'', max_depth = 1, valid_ipv6 = (\<lambda>_. False),
                  urljoin = (\<lambda>base url. Inr url), http_get = sample_web\<rparr>"

definition sample_path :: string where
  "sample_path = ''output/f761d50a/202ab455/a_a_a_a_a_a_a_a_a_a_a_a_a_a_a_a_a_a_a_a_a.md''"

definition sample_result :: state where
  \<comment> \<open>the state after the crawl of the sample site from \<open>http://h/\<close>, depth 1\<close>
  "sample_result =
     \<lparr>visited_urls = {''http://h'', page_one, page_two},
      dirs = {''output'', ''output/f761d50a'', ''output/f761d50a/202ab455''},
      written =
        [\<lparr>doc_path = ''output/f761d50a/index.md'', doc_source = ''http://h'', doc_body = ''# Root''\<rparr>,
         \<lparr>doc_path = sample_path, doc_source = page_one, doc_body = ''# One''\<rparr>,
         \<lparr>doc_path = sample_path, doc_source = page_two, doc_body = ''# Two''\<rparr>],
      requests = map get_request [''http://h'', page_one, page_two, page_one, ''http://h/missing''],
      stdout =
        [Processing 0 ''http://h'', Saved ''output/f761d50a/index.md'',
         Processing 1 page_one, Saved sample_path,
         Processing 1 page_two, Saved sample_path,
         Processing 1 page_one, Skip page_one,
         Processing 1 ''http://h/missing'', Failed ''http://h/missing'']\<rparr>"

lemma rstrip_append:
  "rstrip cs (xs @ ys) = (if \<forall>c \<in> set ys. c \<in> set cs then rstrip cs xs else xs @ rstrip cs ys)"
  by (simp add: rstrip_def dropWhile_append)

lemma rstrip_id: "s = [] \<or> last s \<notin> set cs \<Longrightarrow> rstrip cs s = s"
  by (cases s rule: rev_cases) (auto simp: rstrip_def)

lemma rstrip_last: "rstrip cs s = [] \<or> last (rstrip cs s) \<notin> set cs"
  unfolding rstrip_def
  by (metis hd_dropWhile last_rev rev_is_Nil_conv)

lemma rstrip_idem: "rstrip cs (rstrip cs s) = rstrip cs s"
  using rstrip_last [of cs s] by (rule rstrip_id)

lemma set_rstrip: "set (rstrip cs s) \<subseteq> set s"
  unfolding rstrip_def using set_dropWhileD by fastforce

lemma rstrip_prefix: "\<exists>zs. s = rstrip cs s @ zs \<and> set zs \<subseteq> set cs"
proof -
  have "rev s = takeWhile (\<lambda>c. c \<in> set cs) (rev s) @ dropWhile (\<lambda>c. c \<in> set cs) (rev s)"
    by simp
  then have "s = rstrip cs s @ rev (takeWhile (\<lambda>c. c \<in> set cs) (rev s))"
    unfolding rstrip_def by (metis rev_append rev_rev_ident)
  moreover have "set (rev (takeWhile (\<lambda>c. c \<in> set cs) (rev s))) \<subseteq> set cs"
    using set_takeWhileD by fastforce
  ultimately show ?thesis by blast
qed

lemma hd_rstrip: "rstrip cs s \<noteq> [] \<Longrightarrow> hd (rstrip cs s) = hd s"
  using rstrip_prefix [of s cs] by (metis hd_append2)

lemma set_before: "set (before c s) \<subseteq> set s"
  unfolding before_def using set_takeWhileD by fastforce

lemma set_after: "set (after c s) \<subseteq> set s"
  unfolding after_def
  by (metis (no_types, lifting) set_drop_subset set_dropWhileD subsetI subset_trans)

lemma before_notin: "c \<notin> set (before c s)"
  unfolding before_def using set_takeWhileD by fastforce

lemma before_id: "c \<notin> set s \<Longrightarrow> before c s = s"
  by (auto simp: before_def)

lemma after_none: "c \<notin> set s \<Longrightarrow> after c s = []"
  by (induction s) (auto simp: after_def)

lemma before_append: "c \<notin> set xs \<Longrightarrow> before c (xs @ c # ys) = xs"
  by (induction xs) (auto simp: before_def)

lemma after_append: "c \<notin> set xs \<Longrightarrow> after c (xs @ c # ys) = ys"
  by (induction xs) (auto simp: after_def)

lemma lower_char_letter_all:
  "\<forall>c \<in> set (ascii_lowercase @ ascii_uppercase). lower_char c \<in> set ascii_lowercase"
  by code_simp

lemma lower_char_scheme_all:
  "\<forall>c \<in> set scheme_chars. lower_char c \<in> set canonical_scheme_chars"
  by code_simp

lemma lower_char_canonical_all:
  "\<forall>c \<in> set canonical_scheme_chars. lower_char c = c"
  by code_simp

lemma canonical_scheme_chars_sub_all: "\<forall>c \<in> set canonical_scheme_chars. c \<in> set scheme_chars"
  by code_simp

lemma canonical_not_special_all:
  "\<forall>c \<in> set canonical_scheme_chars.
     c \<notin> set '':/?#'' \<and> c \<notin> set unsafe_url_bytes \<and> c \<notin> set c0_control_or_space"
  by code_simp

lemma lowercase_canonical_all: "\<forall>c \<in> set ascii_lowercase. c \<in> set canonical_scheme_chars"
  by code_simp

lemma split_scheme_wf:
  assumes "split_scheme url = (sch, rest)"
  shows "scheme_wf sch" and "set rest \<subseteq> set url"
proof -
  show "scheme_wf sch"
  proof (cases "sch = []")
    case True
    then show ?thesis by (simp add: scheme_wf_def)
  next
    case False
    with assms have c: "before CHR '':'' url \<noteq> []" "hd url \<in> set (ascii_lowercase @ ascii_uppercase)"
      "\<forall>c \<in> set (before CHR '':'' url). c \<in> set scheme_chars" and s: "sch = lower (before CHR '':'' url)"
      by (auto simp: split_scheme_def split: if_splits)
    from c(1) have "hd (before CHR '':'' url) = hd url"
      by (cases url) (auto simp: before_def split: if_splits)
    with c s have "hd sch \<in> set ascii_lowercase"
      using lower_char_letter_all by (simp add: lower_def hd_map)
    moreover from c(3) s have "set sch \<subseteq> set canonical_scheme_chars"
      using lower_char_scheme_all by (auto simp: lower_def)
    ultimately show ?thesis by (simp add: scheme_wf_def)
  qed
  show "set rest \<subseteq> set url"
    using assms set_after [of "CHR '':''" url] by (auto simp: split_scheme_def split: if_splits)
qed

lemma urlsplit_cases:
  assumes "urlsplit v u = Inr p"
  obtains url1 url2 url3 where
    "url1 = filter (\<lambda>c. c \<notin> set unsafe_url_bytes) (lstrip c0_control_or_space u)"
    "split_scheme url1 = (scheme p, url2)"
    "if take 2 url2 = ''//'' then splitnetloc url2 = (netloc p, url3) \<and> netloc_ok v (netloc p)
     else netloc p = [] \<and> url3 = url2"
    "path p = before CHR ''?'' (before CHR ''#'' url3)"
    "params p = []"
    "query p = after CHR ''?'' (before CHR ''#'' url3)"
    "fragment p = after CHR ''#'' url3"
  using assms
  by (auto simp: urlsplit_def Let_def split: prod.splits if_splits)

lemma urlsplit_scheme_wf: "urlsplit v u = Inr p \<Longrightarrow> scheme_wf (scheme p)"
  by (erule urlsplit_cases) (rule split_scheme_wf)

lemma urlsplit_netloc:
  assumes "urlsplit v u = Inr p"
  shows "set (netloc p) \<inter> set ''/?#'' = {}" and "set (netloc p) \<inter> set unsafe_url_bytes = {}"
    and "netloc p \<noteq> [] \<Longrightarrow> netloc_ok v (netloc p)"
proof -
  from assms obtain url1 url2 url3 where
    u1: "url1 = filter (\<lambda>c. c \<notin> set unsafe_url_bytes) (lstrip c0_control_or_space u)"
    and s: "split_scheme url1 = (scheme p, url2)"
    and n: "if take 2 url2 = ''//'' then splitnetloc url2 = (netloc p, url3) \<and> netloc_ok v (netloc p)
     else netloc p = [] \<and> url3 = url2"
    by (rule urlsplit_cases)
  have sub: "set url2 \<subseteq> set url1" using s by (rule split_scheme_wf)
  have nl: "netloc p = [] \<or> netloc p = takeWhile (\<lambda>c. c \<notin> set ''/?#'') (drop 2 url2)"
    using n by (auto simp: splitnetloc_def split: if_splits)
  then show "set (netloc p) \<inter> set ''/?#'' = {}"
    by (auto dest: set_takeWhileD)
  have "set (netloc p) \<subseteq> set url1"
    using nl sub by (auto dest!: set_takeWhileD in_set_dropD)
  then show "set (netloc p) \<inter> set unsafe_url_bytes = {}"
    using u1 by auto
  show "netloc p \<noteq> [] \<Longrightarrow> netloc_ok v (netloc p)"
    using n by (auto split: if_splits)
qed

lemma urlsplit_path:
  assumes "urlsplit v u = Inr p"
  shows "CHR ''?'' \<notin> set (path p)" and "CHR ''#'' \<notin> set (path p)"
    and "set (path p) \<inter> set unsafe_url_bytes = {}"
    and "netloc p \<noteq> [] \<Longrightarrow> path p = [] \<or> hd (path p) = CHR ''/''"
proof -
  from assms obtain url1 url2 url3 where
    u1: "url1 = filter (\<lambda>c. c \<notin> set unsafe_url_bytes) (lstrip c0_control_or_space u)"
    and s: "split_scheme url1 = (scheme p, url2)"
    and n: "if take 2 url2 = ''//'' then splitnetloc url2 = (netloc p, url3) \<and> netloc_ok v (netloc p)
     else netloc p = [] \<and> url3 = url2"
    and pa: "path p = before CHR ''?'' (before CHR ''#'' url3)"
    by (rule urlsplit_cases)
  show "CHR ''?'' \<notin> set (path p)"
    unfolding pa by (rule before_notin)
  show "CHR ''#'' \<notin> set (path p)"
    unfolding pa using before_notin [of "CHR ''#''" url3] set_before [of "CHR ''?''" "before CHR ''#'' url3"]
    by auto
  have sub: "set url2 \<subseteq> set url1" using s by (rule split_scheme_wf)
  have "set url3 \<subseteq> set url2"
    using n by (auto simp: splitnetloc_def split: if_splits dest!: set_dropWhileD in_set_dropD)
  moreover have "set (path p) \<subseteq> set url3"
    unfolding pa using set_before by (meson subset_trans)
  ultimately have "set (path p) \<subseteq> set url1" using sub by blast
  then show "set (path p) \<inter> set unsafe_url_bytes = {}"
    using u1 by auto
  show "path p = [] \<or> hd (path p) = CHR ''/''" if "netloc p \<noteq> []"
  proof -
    from that n have u3: "url3 = dropWhile (\<lambda>c. c \<notin> set ''/?#'') (drop 2 url2)"
      by (auto simp: splitnetloc_def split: if_splits)
    show ?thesis
    proof (cases url3)
      case Nil
      then show ?thesis by (simp add: pa before_def)
    next
      case (Cons c cs)
      with u3 have "c \<in> set ''/?#''"
        using hd_dropWhile [of "\<lambda>c. c \<notin> set ''/?#''" "drop 2 url2"] by (metis list.sel(1) list.simps(3))
      with Cons show ?thesis by (auto simp: pa before_def)
    qed
  qed
qed

lemma last_segment_no_slash: "CHR ''/'' \<notin> set (last_segment s)"
  unfolding last_segment_def using set_takeWhileD by fastforce

lemma last_segment_split:
  "CHR ''/'' \<in> set s \<Longrightarrow>
     \<exists>xs. s = xs @ CHR ''/'' # last_segment s \<and> take (length s - length (last_segment s)) s = xs @ ''/''"
proof -
  assume a: "CHR ''/'' \<in> set s"
  let ?P = "\<lambda>c. c \<noteq> CHR ''/''"
  have "dropWhile ?P (rev s) \<noteq> []" using a by (auto simp: dropWhile_eq_Nil_conv)
  then obtain ys where d: "dropWhile ?P (rev s) = CHR ''/'' # ys"
    using hd_dropWhile [of ?P "rev s"] by (cases "dropWhile ?P (rev s)") auto
  have "rev s = takeWhile ?P (rev s) @ dropWhile ?P (rev s)" by simp
  then have "s = rev (dropWhile ?P (rev s)) @ rev (takeWhile ?P (rev s))"
    by (metis rev_append rev_rev_ident)
  then have s: "s = (rev ys @ ''/'') @ last_segment s"
    using d by (simp add: last_segment_def)
  then have "take (length s - length (last_segment s)) s = rev ys @ ''/''"
    by (metis add_diff_cancel_right' append_eq_conv_conj length_append)
  with s show ?thesis by auto
qed

lemma splitparams_fst:
  "set (fst (splitparams s)) \<subseteq> set s"
  "s = [] \<or> hd s = CHR ''/'' \<Longrightarrow> fst (splitparams s) = [] \<or> hd (fst (splitparams s)) = CHR ''/''"
proof -
  show "set (fst (splitparams s)) \<subseteq> set s"
  proof (cases "CHR ''/'' \<in> set s")
    case True
    from last_segment_split [OF this] obtain xs where
      x: "s = xs @ CHR ''/'' # last_segment s" "take (length s - length (last_segment s)) s = xs @ ''/''"
      by blast
    have "set (xs @ ''/'' @ before CHR '';'' (last_segment s)) \<subseteq> set (xs @ CHR ''/'' # last_segment s)"
      using set_before [of "CHR '';''" "last_segment s"] by auto
    then show ?thesis using True x by (auto simp: splitparams_def)
  next
    case False
    then show ?thesis using set_before [of "CHR '';''" s] by (auto simp: splitparams_def)
  qed
  show "fst (splitparams s) = [] \<or> hd (fst (splitparams s)) = CHR ''/''" if "s = [] \<or> hd s = CHR ''/''"
  proof (cases "CHR ''/'' \<in> set s")
    case True
    from last_segment_split [OF this] obtain xs where
      x: "s = xs @ CHR ''/'' # last_segment s" "take (length s - length (last_segment s)) s = xs @ ''/''"
      by blast
    have "s = (xs @ ''/'') @ last_segment s" using x(1) by simp
    then have "hd (xs @ ''/'') = hd s" by (metis hd_append2 snoc_eq_iff_butlast)
    moreover have "hd s = CHR ''/''" using that True by auto
    ultimately show ?thesis using True x(2) by (auto simp: splitparams_def hd_append)
  next
    case False
    with that have "s = []" by (cases s) auto
    then show ?thesis by (simp add: splitparams_def before_def)
  qed
qed

lemma splitparams_id:
  "CHR '';'' \<notin> set (last_segment s) \<Longrightarrow> s = [] \<or> hd s = CHR ''/'' \<Longrightarrow> fst (splitparams s) = s"
  by (cases s) (auto simp: splitparams_def before_def)

lemma urlparse_cases:
  assumes "urlparse v u = Inr p"
  obtains r where "urlsplit v u = Inr r" "scheme p = scheme r" "netloc p = netloc r"
    "path p = path r \<or> path p = fst (splitparams (path r))"
  using assms by (auto simp: urlparse_def split: sum.splits if_splits)

lemma urlparse_props:
  assumes "urlparse v u = Inr p"
  shows "scheme_wf (scheme p)"
    and "set (netloc p) \<inter> set ''/?#'' = {}"
    and "set (netloc p) \<inter> set unsafe_url_bytes = {}"
    and "netloc p \<noteq> [] \<Longrightarrow> netloc_ok v (netloc p)"
    and "CHR ''?'' \<notin> set (path p)" and "CHR ''#'' \<notin> set (path p)"
    and "set (path p) \<inter> set unsafe_url_bytes = {}"
    and "netloc p \<noteq> [] \<Longrightarrow> path p = [] \<or> hd (path p) = CHR ''/''"
proof -
  from assms obtain r where r: "urlsplit v u = Inr r" and sc: "scheme p = scheme r"
    and nl: "netloc p = netloc r" and pa: "path p = path r \<or> path p = fst (splitparams (path r))"
    by (rule urlparse_cases)
  show "scheme_wf (scheme p)" using urlsplit_scheme_wf [OF r] sc by simp
  show "set (netloc p) \<inter> set ''/?#'' = {}" using urlsplit_netloc(1) [OF r] nl by simp
  show "set (netloc p) \<inter> set unsafe_url_bytes = {}" using urlsplit_netloc(2) [OF r] nl by simp
  show "netloc p \<noteq> [] \<Longrightarrow> netloc_ok v (netloc p)" using urlsplit_netloc(3) [OF r] nl by simp
  have sub: "set (path p) \<subseteq> set (path r)" using pa splitparams_fst(1) [of "path r"] by auto
  show "CHR ''?'' \<notin> set (path p)" using urlsplit_path(1) [OF r] sub by auto
  show "CHR ''#'' \<notin> set (path p)" using urlsplit_path(2) [OF r] sub by auto
  show "set (path p) \<inter> set unsafe_url_bytes = {}" using urlsplit_path(3) [OF r] sub by auto
  show "path p = [] \<or> hd (path p) = CHR ''/''" if "netloc p \<noteq> []"
    using urlsplit_path(4) [OF r] that nl pa splitparams_fst(2) [of "path r"] by auto
qed

text \<open>Parsing a string put together from a scheme, a network location and a path.\<close>

lemma urlsplit_assembled:
  assumes sch: "sch \<noteq> []" "scheme_wf sch"
    and nl: "nl \<noteq> []" "set nl \<inter> set ''/?#'' = {}" "set nl \<inter> set unsafe_url_bytes = {}" "netloc_ok v nl"
    and pa: "pa = [] \<or> hd pa = CHR ''/''" "CHR ''?'' \<notin> set pa" "CHR ''#'' \<notin> set pa"
      "set pa \<inter> set unsafe_url_bytes = {}"
  shows "urlsplit v (sch @ ''://'' @ nl @ pa) =
           Inr \<lparr>scheme = sch, netloc = nl, path = pa, params = [], query = [], fragment = []\<rparr>"
proof -
  let ?u = "sch @ ''://'' @ nl @ pa"
  from sch have hd: "hd sch \<in> set ascii_lowercase" and can: "set sch \<subseteq> set canonical_scheme_chars"
    by (auto simp: scheme_wf_def)
  have hdc: "hd sch \<in> set canonical_scheme_chars" using hd lowercase_canonical_all by blast
  have "hd ?u = hd sch" using sch(1) by (simp add: hd_append)
  then have l: "lstrip c0_control_or_space ?u = ?u"
    using hdc canonical_not_special_all sch(1) unfolding lstrip_def
    by (cases sch) auto
  have "\<forall>c \<in> set ?u. c \<notin> set unsafe_url_bytes"
    using can canonical_not_special_all nl(3) pa(4) by (auto simp: unsafe_url_bytes_def)
  then have f: "filter (\<lambda>c. c \<notin> set unsafe_url_bytes) ?u = ?u"
    by (simp only: filter_id_conv)
  have nocolon: "CHR '':'' \<notin> set sch" using can canonical_not_special_all by auto
  have b: "before CHR '':'' ?u = sch"
    using before_append [OF nocolon, of "''//'' @ nl @ pa"] by simp
  have a: "after CHR '':'' ?u = ''//'' @ nl @ pa"
    using after_append [OF nocolon, of "''//'' @ nl @ pa"] by simp
  have low: "lower sch = sch"
    unfolding lower_def using can lower_char_canonical_all by (simp add: map_idI subset_iff)
  have "hd ?u \<in> set (ascii_lowercase @ ascii_uppercase)"
    using hd sch(1) by (simp add: hd_append)
  moreover have "\<forall>c \<in> set sch. c \<in> set scheme_chars"
    using can canonical_scheme_chars_sub_all by blast
  ultimately have ss: "split_scheme ?u = (sch, ''//'' @ nl @ pa)"
    unfolding split_scheme_def b a low using sch(1) by simp
  have all: "\<forall>c \<in> set nl. c \<notin> set ''/?#''" using nl(2) by blast
  have dpa: "dropWhile (\<lambda>c. c \<notin> set ''/?#'') pa = pa"
    using pa(1) by (cases pa) auto
  have tpa: "takeWhile (\<lambda>c. c \<notin> set ''/?#'') pa = []"
    using pa(1) by (cases pa) auto
  have tw: "takeWhile (\<lambda>c. c \<notin> set ''/?#'') (nl @ pa) = nl"
  proof -
    have "takeWhile (\<lambda>c. c \<notin> set ''/?#'') (nl @ pa) = nl @ takeWhile (\<lambda>c. c \<notin> set ''/?#'') pa"
      by (rule takeWhile_append2) (use all in blast)
    then show ?thesis by (simp only: tpa append_Nil2)
  qed
  have dw: "dropWhile (\<lambda>c. c \<notin> set ''/?#'') (nl @ pa) = pa"
  proof -
    have "dropWhile (\<lambda>c. c \<notin> set ''/?#'') (nl @ pa) = dropWhile (\<lambda>c. c \<notin> set ''/?#'') pa"
      by (rule dropWhile_append2) (use all in blast)
    then show ?thesis by (simp only: dpa)
  qed
  have sn: "splitnetloc (''//'' @ nl @ pa) = (nl, pa)"
    using tw dw by (simp add: splitnetloc_def)
  have p1: "before CHR ''#'' pa = pa" using pa(3) by (rule before_id)
  have p2: "before CHR ''?'' pa = pa" using pa(2) by (rule before_id)
  have p3: "after CHR ''#'' pa = []" using pa(3) by (rule after_none)
  have p4: "after CHR ''?'' pa = []" using pa(2) by (rule after_none)
  show ?thesis
    using l f ss sn nl(4) p1 p2 p3 p4 by (simp add: urlsplit_def Let_def)
qed

lemma rstrip_all: "\<forall>c \<in> set s. c \<in> set cs \<Longrightarrow> rstrip cs s = []"
  by (simp add: rstrip_def dropWhile_eq_Nil_conv)

lemma rstrip_Nil_iff: "rstrip cs s = [] \<longleftrightarrow> (\<forall>c \<in> set s. c \<in> set cs)"
  by (auto simp: rstrip_def dropWhile_eq_Nil_conv)

lemma rstrip_append_all: "\<forall>c \<in> set ys. c \<in> set cs \<Longrightarrow> rstrip cs (xs @ ys) = rstrip cs xs"
  by (simp add: rstrip_append)

lemma rstrip_append_keep:
  "\<not> (\<forall>c \<in> set ys. c \<in> set cs) \<Longrightarrow> rstrip cs (xs @ ys) = xs @ rstrip cs ys"
  by (auto simp: rstrip_append)

lemma rstrip_assembled:
  assumes "nl @ rstrip ''/'' pa \<noteq> []" and "CHR ''/'' \<notin> set nl"
  shows "rstrip ''/'' (sch @ ''://'' @ nl @ pa) = sch @ ''://'' @ nl @ rstrip ''/'' pa"
proof (cases "rstrip ''/'' pa = []")
  case False
  then have "\<not> (\<forall>c \<in> set pa. c \<in> set ''/'')" using rstrip_Nil_iff by blast
  then have "rstrip ''/'' ((sch @ ''://'' @ nl) @ pa) = (sch @ ''://'' @ nl) @ rstrip ''/'' pa"
    by (rule rstrip_append_keep)
  then show ?thesis by simp
next
  case True
  then have all: "\<forall>c \<in> set pa. c \<in> set ''/''" using rstrip_Nil_iff by blast
  from True assms(1) have nl: "nl \<noteq> []" by simp
  then have l: "last nl \<in> set nl" by (rule last_in_set)
  then have "last nl \<notin> set ''/''" using assms(2) by auto
  then have "\<not> (\<forall>c \<in> set nl. c \<in> set ''/'')" using l by blast
  then have "rstrip ''/'' ((sch @ ''://'') @ nl) = (sch @ ''://'') @ rstrip ''/'' nl"
    by (rule rstrip_append_keep)
  moreover have "rstrip ''/'' nl = nl"
    using \<open>last nl \<notin> set ''/''\<close> by (intro rstrip_id disjI2)
  moreover have "rstrip ''/'' (((sch @ ''://'') @ nl) @ pa) = rstrip ''/'' ((sch @ ''://'') @ nl)"
    using all by (rule rstrip_append_all)
  ultimately show ?thesis using True by simp
qed

lemma rstrip_scheme_only:
  assumes "CHR ''/'' \<notin> set sch" and "\<forall>c \<in> set pa. c = CHR ''/''"
  shows "rstrip ''/'' (sch @ ''://'' @ pa) = sch @ '':''"
proof -
  have "\<forall>c \<in> set (''//'' @ pa). c \<in> set ''/''" using assms(2) by simp
  then have "rstrip ''/'' ((sch @ '':'') @ ''//'' @ pa) = rstrip ''/'' (sch @ '':'')"
    by (rule rstrip_append_all)
  moreover have "rstrip ''/'' (sch @ '':'') = sch @ '':''" by (rule rstrip_id) simp
  ultimately show ?thesis by simp
qed

lemma normalize_url_Inr:
  "urlparse v u = Inr p \<Longrightarrow> normalize_url v u = Inr (rstrip ''/'' (scheme p @ ''://'' @ netloc p @ path p))"
  by (simp add: normalize_url_def)

lemma scheme_wf_chars:
  assumes "scheme_wf sch" and "c \<in> set sch"
  shows "c \<notin> set '':/?#''"
proof -
  from assms(2) have "sch \<noteq> []" by auto
  with assms(1) have "set sch \<subseteq> set canonical_scheme_chars" unfolding scheme_wf_def by blast
  with assms(2) have "c \<in> set canonical_scheme_chars" by blast
  with canonical_not_special_all show ?thesis by blast
qed

lemma normalize_url_assembled:
  assumes sch: "sch \<noteq> []" "scheme_wf sch"
    and nl: "nl \<noteq> []" "set nl \<inter> set ''/?#'' = {}" "set nl \<inter> set unsafe_url_bytes = {}" "netloc_ok v nl"
    and pa: "pa = [] \<or> hd pa = CHR ''/''" "CHR ''?'' \<notin> set pa" "CHR ''#'' \<notin> set pa"
      "set pa \<inter> set unsafe_url_bytes = {}"
    and par: "sch \<notin> set uses_params \<or> CHR '';'' \<notin> set (last_segment pa)"
  shows "normalize_url v (sch @ ''://'' @ nl @ pa) = Inr (sch @ ''://'' @ nl @ rstrip ''/'' pa)"
proof -
  let ?u = "sch @ ''://'' @ nl @ pa"
  let ?r = "\<lparr>scheme = sch, netloc = nl, path = pa, params = [], query = [], fragment = []\<rparr>"
  have s: "urlsplit v ?u = Inr ?r"
    using sch nl pa by (rule urlsplit_assembled)
  have "\<exists>q. urlparse v ?u = Inr q \<and> scheme q = sch \<and> netloc q = nl \<and> path q = pa"
  proof (cases "sch \<in> set uses_params \<and> CHR '';'' \<in> set pa")
    case True
    with par have "CHR '';'' \<notin> set (last_segment pa)" by blast
    then have "fst (splitparams pa) = pa" using pa(1) by (rule splitparams_id)
    then show ?thesis using s True by (simp add: urlparse_def)
  next
    case False
    then show ?thesis using s by (auto simp add: urlparse_def)
  qed
  then obtain q where q: "urlparse v ?u = Inr q" "scheme q = sch" "netloc q = nl" "path q = pa"
    by blast
  have nos: "CHR ''/'' \<notin> set nl" using nl(2) by auto
  have "nl @ rstrip ''/'' pa \<noteq> []" using nl(1) by simp
  from rstrip_assembled [OF this nos, of sch] show ?thesis
    using normalize_url_Inr [OF q(1)] q by simp
qed

section \<open>The URL normalizer: what it returns\<close>

text \<open>
  C4, as the code has it. For every URL that \<open>urlparse\<close> accepts, unless both the host
  is empty and the path has nothing but slashes, \<open>_normalize_url\<close> returns the parsed
  scheme, \<open>://\<close>, the host and the parsed path with all its trailing slashes stripped
  (not a single one); the result has no \<open>?\<close>, no \<open>#\<close> and no slash at its end.
\<close>

theorem normalize_url_form:
  assumes "urlparse is_ipv6 u = Inr p" and "netloc p @ rstrip ''/'' (path p) \<noteq> []"
  shows "\<exists>r. normalize_url is_ipv6 u = Inr r
           \<and> r = scheme p @ ''://'' @ netloc p @ rstrip ''/'' (path p)
           \<and> CHR ''?'' \<notin> set r \<and> CHR ''#'' \<notin> set r \<and> last r \<noteq> CHR ''/''"
proof -
  let ?r = "scheme p @ ''://'' @ netloc p @ rstrip ''/'' (path p)"
  have nos: "CHR ''/'' \<notin> set (netloc p)" using urlparse_props(2) [OF assms(1)] by auto
  have r: "normalize_url is_ipv6 u = Inr ?r"
    using normalize_url_Inr [OF assms(1)] rstrip_assembled [OF assms(2) nos] by simp
  have sch: "CHR ''?'' \<notin> set (scheme p)" "CHR ''#'' \<notin> set (scheme p)"
    using scheme_wf_chars [OF urlparse_props(1) [OF assms(1)]] by auto
  have nl: "CHR ''?'' \<notin> set (netloc p)" "CHR ''#'' \<notin> set (netloc p)"
    using urlparse_props(2) [OF assms(1)] by auto
  have pa: "CHR ''?'' \<notin> set (rstrip ''/'' (path p))" "CHR ''#'' \<notin> set (rstrip ''/'' (path p))"
    using urlparse_props(5,6) [OF assms(1)] set_rstrip [of "''/''" "path p"] by auto
  have q: "CHR ''?'' \<notin> set ?r" "CHR ''#'' \<notin> set ?r" using sch nl pa by auto
  have "?r = (scheme p @ ''://'') @ (netloc p @ rstrip ''/'' (path p))" by simp
  then have "last ?r = last (netloc p @ rstrip ''/'' (path p))"
    using last_appendR [OF assms(2)] by metis
  also have "\<dots> \<noteq> CHR ''/''"
  proof (cases "rstrip ''/'' (path p) = []")
    case True
    with assms(2) have "netloc p \<noteq> []" by simp
    then have "last (netloc p) \<in> set (netloc p)" by (rule last_in_set)
    with nos show ?thesis by (auto simp: True)
  next
    case False
    then show ?thesis using rstrip_last [of "''/''" "path p"] by simp
  qed
  finally show ?thesis using r q by blast
qed

text \<open>The theorem at a URL with two trailing slashes, a query and a fragment.\<close>

theorem normalize_url_form_witness:
  "urlparse (\<lambda>_. False) ''https://tc.canada.ca/en//?page=2#top'' =
     Inr \<lparr>scheme = ''https'', netloc = ''tc.canada.ca'', path = ''/en//'', params = '''',
          query = ''page=2'', fragment = ''top''\<rparr>
   \<and> normalize_url (\<lambda>_. False) ''https://tc.canada.ca/en//?page=2#top'' = Inr ''https://tc.canada.ca/en''"
proof -
  have p: "urlparse (\<lambda>_. False) ''https://tc.canada.ca/en//?page=2#top'' =
     Inr \<lparr>scheme = ''https'', netloc = ''tc.canada.ca'', path = ''/en//'', params = '''',
          query = ''page=2'', fragment = ''top''\<rparr>"
    by code_simp
  have h: "netloc \<lparr>scheme = ''https'', netloc = ''tc.canada.ca'', path = ''/en//'', params = '''',
          query = ''page=2'', fragment = ''top''\<rparr> @ rstrip ''/'' (path \<lparr>scheme = ''https'', netloc = ''tc.canada.ca'', path = ''/en//'', params = '''',
          query = ''page=2'', fragment = ''top''\<rparr>) \<noteq> []"
    by simp
  have "rstrip ''/'' ''/en//'' = ''/en''" by code_simp
  then show ?thesis using normalize_url_form [OF p h] p by simp
qed

text \<open>
  C4 as stated fails: stripping a single trailing slash from the path of
  \<open>http://h/p//\<close> would leave \<open>http://h/p/\<close>; the code returns \<open>http://h/p\<close>.
\<close>

theorem single_slash_counterexample:
  "normalize_url (\<lambda>_. False) ''http://h/p//'' = Inr ''http://h/p''
   \<and> spec_normalize (\<lambda>_. False) ''http://h/p//'' = Inr ''http://h/p/''"
  by code_simp

text \<open>
  C10, as the code has it. When the parsed path is empty or has slashes only, the result
  is \<open>scheme://host\<close> if the host is not empty, and \<open>scheme:\<close> if it is empty, since
  the slashes of \<open>://\<close> are stripped as well. No result ends in a slash.
\<close>

theorem normalize_url_root:
  "(urlparse is_ipv6 u = Inr p \<and> set (path p) \<subseteq> {CHR ''/''} \<longrightarrow>
      normalize_url is_ipv6 u =
        Inr (if netloc p = [] then scheme p @ '':'' else scheme p @ ''://'' @ netloc p))
   \<and> (normalize_url is_ipv6 u = Inr r \<longrightarrow> r \<noteq> [] \<and> last r \<noteq> CHR ''/'')"
proof -
  have A: "normalize_url is_ipv6 u =
        Inr (if netloc p = [] then scheme p @ '':'' else scheme p @ ''://'' @ netloc p)"
    if p: "urlparse is_ipv6 u = Inr p" and sub: "set (path p) \<subseteq> {CHR ''/''}"
  proof -
    have sl: "\<forall>c \<in> set (path p). c = CHR ''/''" using sub by auto
    have nos: "CHR ''/'' \<notin> set (netloc p)" using urlparse_props(2) [OF p] by auto
    have r0: "rstrip ''/'' (path p) = []" using sl by (simp add: rstrip_Nil_iff)
    show ?thesis
    proof (cases "netloc p = []")
      case True
      have "CHR ''/'' \<notin> set (scheme p)" using scheme_wf_chars [OF urlparse_props(1) [OF p]] by auto
      from rstrip_scheme_only [OF this sl] show ?thesis
        using normalize_url_Inr [OF p] True by simp
    next
      case False
      then have "netloc p @ rstrip ''/'' (path p) \<noteq> []" by simp
      from rstrip_assembled [OF this nos] show ?thesis
        using normalize_url_Inr [OF p] False r0 by simp
    qed
  qed
  have B: "r \<noteq> [] \<and> last r \<noteq> CHR ''/''" if n: "normalize_url is_ipv6 u = Inr r"
  proof -
    from n obtain q :: parse_result where r: "r = rstrip ''/'' (scheme q @ ''://'' @ netloc q @ path q)"
      by (auto simp: normalize_url_def split: sum.splits)
    have "CHR '':'' \<in> set (scheme q @ ''://'' @ netloc q @ path q)" by simp
    moreover have "CHR '':'' \<notin> set ''/''" by simp
    ultimately have "\<not> (\<forall>c \<in> set (scheme q @ ''://'' @ netloc q @ path q). c \<in> set ''/'')"
      by blast
    then have "r \<noteq> []" unfolding r using rstrip_Nil_iff by blast
    then show ?thesis
      using rstrip_last [of "''/''" "scheme q @ ''://'' @ netloc q @ path q"] r by auto
  qed
  from A B show ?thesis by blast
qed

text \<open>The theorem at \<open>http://host///\<close> and at \<open>http://host\<close>.\<close>

theorem normalize_url_root_witness:
  "urlparse (\<lambda>_. False) ''http://host///'' =
      Inr \<lparr>scheme = ''http'', netloc = ''host'', path = ''///'', params = '''', query = '''', fragment = ''''\<rparr>
   \<and> normalize_url (\<lambda>_. False) ''http://host///'' = Inr ''http://host''
   \<and> normalize_url (\<lambda>_. False) ''http://host'' = Inr ''http://host''
   \<and> last ''http://host'' \<noteq> CHR ''/''"
proof -
  let ?p = "\<lparr>scheme = ''http'', netloc = ''host'', path = ''///'', params = '''', query = '''', fragment = ''''\<rparr>"
  have p: "urlparse (\<lambda>_. False) ''http://host///'' = Inr ?p" by code_simp
  have q: "normalize_url (\<lambda>_. False) ''http://host'' = Inr ''http://host''" by code_simp
  have s: "set (path ?p) \<subseteq> {CHR ''/''}" by simp
  from normalize_url_root [of "\<lambda>_. False" "''http://host///''" ?p "''http://host''"] p s
  have "normalize_url (\<lambda>_. False) ''http://host///'' = Inr ''http://host''" by simp
  moreover from normalize_url_root [of "\<lambda>_. False" "''http://host''" ?p "''http://host''"] q
  have "last ''http://host'' \<noteq> CHR ''/''" by blast
  ultimately show ?thesis using p q by blast
qed

text \<open>
  C10 as stated fails for an empty host: the path of \<open>http:///\<close> is \<open>/\<close>, and the
  result is \<open>http:\<close>, not \<open>http://\<close>.
\<close>

theorem empty_host_counterexample:
  "urlparse (\<lambda>_. False) ''http:///'' =
      Inr \<lparr>scheme = ''http'', netloc = '''', path = ''/'', params = '''', query = '''', fragment = ''''\<rparr>
   \<and> normalize_url (\<lambda>_. False) ''http:///'' = Inr ''http:''
   \<and> normalize_url (\<lambda>_. False) ''http:///'' \<noteq> Inr (''http'' @ ''://'' @ '''')"
  by code_simp

text \<open>
  C9. The second pass of \<open>_normalize_url\<close> is not always the identity. The path of
  \<open>http://h/a;b/\<close> is \<open>/a;b/\<close>, so the first pass returns \<open>http://h/a;b\<close>; on that,
  \<open>urlparse\<close> takes \<open>b\<close> for the parameters of the last segment, and the second pass
  returns \<open>http://h/a\<close>. The docstring of \<open>_normalize_url\<close> names the query, the anchor
  and the trailing slashes as what is removed, not the parameters; \<open>http://h/a;b\<close> and
  \<open>http://h/a;b/\<close> get different results. The crawler runs both passes on every link:
  link discovery keeps \<open>http://h/a;b\<close> for the link \<open>http://h/a;b/\<close>, and the task
  started on that link requests \<open>http://h/a\<close>.
\<close>

theorem normalize_url_second_pass:
  "normalize_url is_ipv6 ''http://h/a;b/'' = Inr ''http://h/a;b''
   \<and> normalize_url is_ipv6 ''http://h/a;b'' = Inr ''http://h/a''
   \<and> discover_links sample_env ''http://h'' [''http://h/a;b/''] = Inr [''http://h/a;b'']
   \<and> requests (snd (fetch_and_save sample_env ''http://h/a;b'' 1 (Some ''f761d50a'') (init sample_env)))
        = [get_request ''http://h/a'']"
  by code_simp

text \<open>The theorem for a parser without IPv6 hosts: the second result is not the first.\<close>

theorem normalize_url_second_pass_witness:
  "\<exists>r r'. normalize_url (\<lambda>_. False) ''http://h/a;b/'' = Inr r
      \<and> normalize_url (\<lambda>_. False) r = Inr r' \<and> r' \<noteq> r"
proof -
  from normalize_url_second_pass [of "\<lambda>_. False"]
  have a: "normalize_url (\<lambda>_. False) ''http://h/a;b/'' = Inr ''http://h/a;b''"
    and b: "normalize_url (\<lambda>_. False) ''http://h/a;b'' = Inr ''http://h/a''"
    by blast+
  have "''http://h/a'' \<noteq> ''http://h/a;b''" by simp
  with a b show ?thesis by blast
qed

text \<open>
  Where the second pass is the identity: on every URL with a scheme and a host, unless
  the scheme takes parameters and the path, once its trailing slashes are stripped, has a
  \<open>;\<close> in its last segment. The query, the anchor and the trailing slash of
  \<open>http://h/p/?x=1#f\<close> are removed, and \<open>http://h/p\<close> is left as it is.
\<close>

lemma normalize_url_idempotent:
  assumes "urlparse is_ipv6 u = Inr p" and "scheme p \<noteq> []" and "netloc p \<noteq> []"
    and "scheme p \<notin> set uses_params \<or> CHR '';'' \<notin> set (last_segment (rstrip ''/'' (path p)))"
  shows "(\<exists>r. normalize_url is_ipv6 u = Inr r \<and> normalize_url is_ipv6 r = Inr r)
     \<and> normalize_url is_ipv6 ''http://h/p/?x=1#f'' = Inr ''http://h/p''
     \<and> normalize_url is_ipv6 ''http://h/p/'' = Inr ''http://h/p''
     \<and> normalize_url is_ipv6 ''http://h/p'' = Inr ''http://h/p''"
proof -
  let ?pa = "rstrip ''/'' (path p)"
  let ?r = "scheme p @ ''://'' @ netloc p @ ?pa"
  note pr = urlparse_props [OF assms(1)]
  have nos: "CHR ''/'' \<notin> set (netloc p)" using pr(2) by auto
  have "netloc p @ ?pa \<noteq> []" using assms(3) by simp
  from rstrip_assembled [OF this nos, of "scheme p"]
  have r: "normalize_url is_ipv6 u = Inr ?r"
    using normalize_url_Inr [OF assms(1)] by simp
  have sub: "set ?pa \<subseteq> set (path p)" by (rule set_rstrip)
  have hd: "?pa = [] \<or> hd ?pa = CHR ''/''"
    using pr(8) [OF assms(3)] hd_rstrip [of "''/''" "path p"] by (cases "?pa = []") (auto simp: rstrip_def)
  have a: "CHR ''?'' \<notin> set ?pa" "CHR ''#'' \<notin> set ?pa" "set ?pa \<inter> set unsafe_url_bytes = {}"
    using pr(5,6,7) sub by auto
  have "normalize_url is_ipv6 ?r = Inr (scheme p @ ''://'' @ netloc p @ rstrip ''/'' ?pa)"
    using assms(2) pr(1) assms(3) pr(2) pr(3) pr(4) [OF assms(3)] hd a assms(4)
    by (rule normalize_url_assembled)
  then have "normalize_url is_ipv6 ?r = Inr ?r" by (simp only: rstrip_idem)
  with r have "\<exists>r. normalize_url is_ipv6 u = Inr r \<and> normalize_url is_ipv6 r = Inr r" by blast
  moreover have "normalize_url is_ipv6 ''http://h/p/?x=1#f'' = Inr ''http://h/p''" by code_simp
  moreover have "normalize_url is_ipv6 ''http://h/p/'' = Inr ''http://h/p''" by code_simp
  moreover have "normalize_url is_ipv6 ''http://h/p'' = Inr ''http://h/p''" by code_simp
  ultimately show ?thesis by blast
qed

text \<open>The lemma at a URL with a \<open>;\<close> in an inner segment of its path.\<close>

lemma normalize_url_idempotent_example:
  "urlparse (\<lambda>_. False) ''HTTPS://tc.canada.ca/en;v=1/acts///?q=1'' =
      Inr \<lparr>scheme = ''https'', netloc = ''tc.canada.ca'', path = ''/en;v=1/acts///'', params = '''',
           query = ''q=1'', fragment = ''''\<rparr>
   \<and> CHR '';'' \<notin> set (last_segment (rstrip ''/'' ''/en;v=1/acts///''))
   \<and> (\<exists>r. normalize_url (\<lambda>_. False) ''HTTPS://tc.canada.ca/en;v=1/acts///?q=1'' = Inr r
           \<and> normalize_url (\<lambda>_. False) r = Inr r)"
proof -
  let ?p = "\<lparr>scheme = ''https'', netloc = ''tc.canada.ca'', path = ''/en;v=1/acts///'', params = '''',
           query = ''q=1'', fragment = ''''\<rparr>"
  have p: "urlparse (\<lambda>_. False) ''HTTPS://tc.canada.ca/en;v=1/acts///?q=1'' = Inr ?p" by code_simp
  have s: "CHR '';'' \<notin> set (last_segment (rstrip ''/'' ''/en;v=1/acts///''))" by code_simp
  have h1: "scheme ?p \<noteq> []" and h2: "netloc ?p \<noteq> []" by simp_all
  have h3: "scheme ?p \<notin> set uses_params \<or> CHR '';'' \<notin> set (last_segment (rstrip ''/'' (path ?p)))"
    using s by simp
  from normalize_url_idempotent [OF p h1 h2 h3] p s show ?thesis by blast
qed

section \<open>Digests and paths\<close>

lemma le_bytes_range: "x \<in> set (le_bytes k n) \<Longrightarrow> 0 \<le> x \<and> x < 256"
  by (induction k arbitrary: n) auto

lemma length_le_bytes: "length (le_bytes k n) = k"
  by (induction k arbitrary: n) auto

lemma md5_bytes: "length (md5 m) = 16" "x \<in> set (md5 m) \<Longrightarrow> 0 \<le> x \<and> x < 256"
proof -
  obtain a b c d where
    h: "fold (\<lambda>M h. md5_block h M) (blocks (words_of (md5_pad m)))
          (0x67452301, 0xefcdab89, 0x98badcfe, 0x10325476) = (a, b, c, d)"
    using prod_cases4 by blast
  show "length (md5 m) = 16" by (simp add: md5_def h length_le_bytes)
  show "0 \<le> x \<and> x < 256" if "x \<in> set (md5 m)"
    using that le_bytes_range by (auto simp: md5_def h)
qed

lemma hex_byte_chars:
  assumes "0 \<le> b" and "b < 256"
  shows "set (hex_byte b) \<subseteq> set hexdigits"
proof -
  have "nat (b div 16) < length hexdigits" "nat (b mod 16) < length hexdigits"
    using assms by (auto simp: hexdigits_def)
  then have "hexdigits ! nat (b div 16) \<in> set hexdigits" "hexdigits ! nat (b mod 16) \<in> set hexdigits"
    by (simp_all only: nth_mem)
  then show ?thesis by (simp add: hex_byte_def hexdigits_def)
qed

lemma hexdigest_md5: "length (hexdigest (md5 m)) = 32" "set (hexdigest (md5 m)) \<subseteq> set hexdigits"
proof -
  have "length (hexdigest bs) = 2 * length bs" for bs
    by (induction bs) (auto simp: hexdigest_def hex_byte_def)
  then show "length (hexdigest (md5 m)) = 32" by (simp add: md5_bytes(1))
  show "set (hexdigest (md5 m)) \<subseteq> set hexdigits"
    using md5_bytes(2) [of _ m] hex_byte_chars by (fastforce simp: hexdigest_def)
qed

lemma hexdigits_no_slash: "CHR ''/'' \<notin> set hexdigits"
  by (simp add: hexdigits_def)

lemma hash_prefix_of_props:
  "length (hash_prefix_of u) = 8" "set (hash_prefix_of u) \<subseteq> set hexdigits"
  using hexdigest_md5 [of "encode u"] set_take_subset [of 8 "hexdigest (md5 (encode u))"]
  by (auto simp: hash_prefix_of_def)

lemma length_join_le: "length (join a b) \<le> length a + 1 + length b"
  by (simp add: join_def)

lemma length_join_ge: "\<not> startswith b ''/'' \<Longrightarrow> length a + length b \<le> length (join a b)"
  by (simp add: join_def)

lemma not_startswith_slash: "CHR ''/'' \<notin> set b \<Longrightarrow> \<not> startswith b ''/''"
  by (cases b) (auto simp: startswith_def)

lemma fallback_name:
  "length (take 10 (hexdigest (md5 m)) @ ''.md'') = 13"
  "CHR ''/'' \<notin> set (take 10 (hexdigest (md5 m)) @ ''.md'')"
proof -
  show "length (take 10 (hexdigest (md5 m)) @ ''.md'') = 13" by (simp add: hexdigest_md5(1))
  have "set (take 10 (hexdigest (md5 m))) \<subseteq> set hexdigits"
    using hexdigest_md5(2) [of m] set_take_subset [of 10 "hexdigest (md5 m)"] by blast
  then show "CHR ''/'' \<notin> set (take 10 (hexdigest (md5 m)) @ ''.md'')"
    using hexdigits_no_slash by auto
qed

lemma filename_from_url_props:
  assumes "filename_from_url v url = Inr f"
  shows "length f \<le> 53" and "CHR ''/'' \<notin> set f"
proof -
  let ?g = "\<lambda>c. if c \<in> set unsafe_filename_chars then CHR ''_'' else c"
  from assms obtain p :: parse_result where p: "urlparse v url = Inr p"
    by (auto simp: filename_from_url_def split: sum.splits)
  define xs where "xs = (if strip ''/'' (path p) = [] then ''index'' else strip ''/'' (path p))"
  have "filename_from_url v url =
      Inr ((if length (map ?g xs) > 50 then drop (length (map ?g xs) - 50) (map ?g xs) else map ?g xs)
           @ ''.md'')"
    by (simp only: filename_from_url_def p sum.case Let_def xs_def)
  with assms have
    f: "f = (if 50 < length xs then drop (length xs - 50) (map ?g xs) else map ?g xs) @ ''.md''"
    by (auto split: if_splits)
  show "length f \<le> 53" unfolding f by simp
  have "CHR ''/'' \<notin> set (map ?g xs)"
    by (auto simp: unsafe_filename_chars_def)
  then show "CHR ''/'' \<notin> set f" unfolding f
    by (auto dest: in_set_dropD)
qed

lemma length_folder_of:
  "length (folder_of base parent url)
     \<le> length base + (case parent of None \<Rightarrow> 0 | Some pf \<Rightarrow> length pf + 1) + 9"
proof -
  have a: "length (join x (hash_prefix_of url)) \<le> length x + 9" for x
    using length_join_le [of x "hash_prefix_of url"] by (simp add: hash_prefix_of_props(1))
  have b: "length (join base pf) \<le> length base + length pf + 1" for pf
    using length_join_le [of base pf] by simp
  show ?thesis
  proof (cases parent)
    case None
    then show ?thesis using a [of base] by (simp add: folder_of_def)
  next
    case (Some pf)
    then show ?thesis using a [of "join base pf"] b [of pf] by (simp add: folder_of_def)
  qed
qed

lemma length_filepath_of:
  "length (filepath_of folder filename) \<le> max 240 (length folder + 14)"
  using length_join_le [of folder "take 10 (hexdigest (md5 (encode (join folder filename)))) @ ''.md''"]
    fallback_name(1) [of "encode (join folder filename)"]
  by (auto simp: filepath_of_def simp del: length_append)

lemma length_filepath_of_ge:
  assumes "CHR ''/'' \<notin> set filename"
  shows "length folder \<le> length (filepath_of folder filename)"
proof -
  have "length folder \<le> length (join folder x)" if "CHR ''/'' \<notin> set x" for x
    using length_join_ge [OF not_startswith_slash [OF that], of folder] by simp
  then show ?thesis
    using assms fallback_name(2) by (simp add: filepath_of_def)
qed

text \<open>
  C3, as the code has it. The path of the path builder has at most 240 characters or, if
  longer, 14 more than the folder; it has at most 240 when the folder has at most 226.
  The folder is at most the base folder, the parent token and 10 characters long. When
  the path derived from the URL exceeds 240 characters, the file name is the first 10
  hexadecimal digits of the MD5 of that path and \<open>.md\<close>, joined to the same folder;
  otherwise the derived path is kept. The result is a function of the input alone.
\<close>

theorem build_path_length:
  assumes "build_path is_ipv6 base parent url = Inr filepath"
  shows "\<exists>filename. filename_from_url is_ipv6 url = Inr filename
      \<and> length filepath \<le> max 240 (length (folder_of base parent url) + 14)
      \<and> (length (folder_of base parent url) \<le> 226 \<longrightarrow> length filepath \<le> 240)
      \<and> length (folder_of base parent url)
           \<le> length base + (case parent of None \<Rightarrow> 0 | Some pf \<Rightarrow> length pf + 1) + 9
      \<and> (240 < length (join (folder_of base parent url) filename) \<longrightarrow>
            filepath = join (folder_of base parent url)
              (take 10 (hexdigest (md5 (encode (join (folder_of base parent url) filename)))) @ ''.md'')
            \<and> length (take 10 (hexdigest (md5 (encode (join (folder_of base parent url) filename))))) = 10
            \<and> set (take 10 (hexdigest (md5 (encode (join (folder_of base parent url) filename)))))
                 \<subseteq> set ''0123456789abcdef'')
      \<and> (length (join (folder_of base parent url) filename) \<le> 240 \<longrightarrow>
            filepath = join (folder_of base parent url) filename)"
proof -
  let ?folder = "folder_of base parent url"
  from assms obtain filename where f: "filename_from_url is_ipv6 url = Inr filename"
    and p: "filepath = filepath_of ?folder filename"
    by (auto simp: build_path_def split: sum.splits)
  let ?m = "encode (join ?folder filename)"
  have l: "length filepath \<le> max 240 (length ?folder + 14)"
    unfolding p by (rule length_filepath_of)
  then have "length ?folder \<le> 226 \<longrightarrow> length filepath \<le> 240" by auto
  moreover have "length (take 10 (hexdigest (md5 ?m))) = 10" by (simp add: hexdigest_md5(1))
  moreover have "set (take 10 (hexdigest (md5 ?m))) \<subseteq> set ''0123456789abcdef''"
    using hexdigest_md5(2) [of ?m] set_take_subset [of 10 "hexdigest (md5 ?m)"]
    unfolding hexdigits_def by blast
  moreover have "240 < length (join ?folder filename) \<longrightarrow>
      filepath = join ?folder (take 10 (hexdigest (md5 ?m)) @ ''.md'')"
    by (simp add: p filepath_of_def)
  moreover have "length (join ?folder filename) \<le> 240 \<longrightarrow> filepath = join ?folder filename"
    by (simp add: p filepath_of_def)
  ultimately show ?thesis using f l length_folder_of [of base parent url] by blast
qed

text \<open>The theorem at the URL of a page two levels down, under a parent token.\<close>

theorem build_path_length_witness:
  "filename_from_url (\<lambda>_. False) ''http://h/en/acts'' = Inr ''en_acts.md''
   \<and> build_path (\<lambda>_. False) ''output'' (Some ''f761d50a'') ''http://h/en/acts''
       = Inr (join (folder_of ''output'' (Some ''f761d50a'') ''http://h/en/acts'') ''en_acts.md'')
   \<and> length (join (folder_of ''output'' (Some ''f761d50a'') ''http://h/en/acts'') ''en_acts.md'') \<le> 240"
proof -
  let ?folder = "folder_of ''output'' (Some ''f761d50a'') ''http://h/en/acts''"
  have f: "filename_from_url (\<lambda>_. False) ''http://h/en/acts'' = Inr ''en_acts.md''" by code_simp
  have "length ?folder \<le> 6 + 9 + 9"
    using length_folder_of [of "''output''" "Some ''f761d50a''" "''http://h/en/acts''"] by simp
  then have s: "length (join ?folder ''en_acts.md'') \<le> 240"
    using length_join_le [of ?folder "''en_acts.md''"] by simp
  then have b: "build_path (\<lambda>_. False) ''output'' (Some ''f761d50a'') ''http://h/en/acts''
       = Inr (filepath_of ?folder ''en_acts.md'')"
    by (simp add: build_path_def f)
  from build_path_length [OF b] f s
  have "filepath_of ?folder ''en_acts.md'' = join ?folder ''en_acts.md''" by auto
  with f b s show ?thesis by simp
qed

text \<open>
  C3 as stated fails: with a base folder of 250 characters the path is longer than 240
  characters, whatever the digests are.
\<close>

theorem long_base_folder_counterexample:
  "build_path (\<lambda>_. False) (replicate 250 CHR ''o'') None ''http://h/p''
     = Inr (filepath_of (folder_of (replicate 250 CHR ''o'') None ''http://h/p'') ''p.md'')
   \<and> 240 < length (filepath_of (folder_of (replicate 250 CHR ''o'') None ''http://h/p'') ''p.md'')"
proof -
  let ?base = "replicate 250 CHR ''o''"
  have f: "filename_from_url (\<lambda>_. False) ''http://h/p'' = Inr ''p.md''" by code_simp
  have "\<not> startswith (hash_prefix_of ''http://h/p'') ''/''"
    using hash_prefix_of_props(2) [of "''http://h/p''"] hexdigits_no_slash
    by (intro not_startswith_slash) blast
  from length_join_ge [OF this, of ?base]
  have "250 \<le> length (folder_of ?base None ''http://h/p'')"
    by (simp add: folder_of_def)
  moreover have "length (folder_of ?base None ''http://h/p'')
      \<le> length (filepath_of (folder_of ?base None ''http://h/p'') ''p.md'')"
    by (rule length_filepath_of_ge) simp
  ultimately show ?thesis by (simp add: build_path_def f)
qed

section \<open>One page\<close>

lemma visit_summary:
  assumes "visit E url d p s = (st, s')"
  shows "(\<exists>e. normalize_url (valid_ipv6 E) url = Inl e \<and> st = Leave (Some e) \<and> s' = s)
       \<or> (\<exists>n out. normalize_url (valid_ipv6 E) url = Inr n
             \<and> stdout s' = stdout s @ Processing d n # out
             \<and> (\<forall>k u. Processing k u \<notin> set out)
             \<and> requests s' = requests s @ [get_request n]
             \<and> ((\<exists>r. st = Leave r) \<and> written s' = written s \<and> visited_urls s' = visited_urls s
                \<or> (\<exists>f links doc. st = Recurse links (hash_prefix_of f)
                      \<and> f \<notin> visited_urls s
                      \<and> written s' = written s @ [doc] \<and> doc_source doc = f
                      \<and> build_path (valid_ipv6 E) (base_folder E) p f = Inr (doc_path doc)
                      \<and> visited_urls s' = insert f (visited_urls s))))"
  using assms
  by (auto simp: visit_def save_def print_def Let_def split: sum.splits option.splits if_splits prod.splits)


lemma visit_skip:
  assumes "normalize_url (valid_ipv6 E) url = Inr n"
    and "http_get E (requests s) (get_request n) = Some resp"
    and "normalize_url (valid_ipv6 E) (resp_url resp) = Inr f"
    and "f \<in> visited_urls s"
  shows "visit E url d p s =
           (Leave None, s\<lparr>requests := requests s @ [get_request n],
                           stdout := stdout s @ [Processing d n, Skip f]\<rparr>)"
  using assms by (simp add: visit_def print_def Let_def)

lemma fetch_and_save_leave:
  "visit E url d p s = (Leave r, s') \<Longrightarrow> fetch_and_save E url d p s = (r, s')"
  by (simp add: fetch_and_save.simps)

lemma fetch_and_save_leaf:
  "\<not> d < max_depth E \<Longrightarrow> visit E url d p s = (Recurse links hp, s')
     \<Longrightarrow> fetch_and_save E url d p s = (None, s')"
  by (simp add: fetch_and_save.simps)

lemma fetch_and_save_recurse:
  "d < max_depth E \<Longrightarrow> visit E url d p s = (Recurse links hp, s')
     \<Longrightarrow> fetch_and_save E url d p s = for_links E links (d + 1) hp s'"
  by (simp add: fetch_and_save.simps)

section \<open>The whole crawl\<close>

text \<open>
  What every page keeps, the crawl keeps: \<open>I\<close> is an invariant of the state, \<open>R\<close> a
  reflexive and transitive relation between the state before and the state after.
\<close>

lemma crawl_preserves:
  fixes I :: "state \<Rightarrow> bool" and R :: "state \<Rightarrow> state \<Rightarrow> bool"
  shows "(\<forall>url d p s st s'. I s \<and> visit E url d p s = (st, s') \<longrightarrow> I s' \<and> R s s')
           \<Longrightarrow> (\<forall>s. R s s) \<Longrightarrow> (\<forall>a b c. R a b \<and> R b c \<longrightarrow> R a c)
           \<Longrightarrow> I s \<Longrightarrow> fetch_and_save E url depth parent s = (r, s') \<Longrightarrow> I s' \<and> R s s'"
    and "(\<forall>url d p s st s'. I s \<and> visit E url d p s = (st, s') \<longrightarrow> I s' \<and> R s s')
           \<Longrightarrow> (\<forall>s. R s s) \<Longrightarrow> (\<forall>a b c. R a b \<and> R b c \<longrightarrow> R a c)
           \<Longrightarrow> I s \<Longrightarrow> for_links E links depth pf s = (r, s') \<Longrightarrow> I s' \<and> R s s'"
proof (induction E url depth parent s and E links depth pf s arbitrary: r s' and r s'
    rule: fetch_and_save_for_links.induct)
  case (1 E url depth parent s)
  obtain st s1 where v: "visit E url depth parent s = (st, s1)" by (metis surj_pair)
  from "1.prems"(1) "1.prems"(4) v have a: "I s1 \<and> R s s1" by (elim allE impE) (rule conjI)
  show ?case
  proof (cases st)
    case (Leave x)
    with v have "fetch_and_save E url depth parent s = (x, s1)" by (simp only: fetch_and_save_leave)
    with "1.prems"(5) have "s' = s1" by simp
    with a show ?thesis by simp
  next
    case (Recurse links hp)
    show ?thesis
    proof (cases "depth < max_depth E")
      case True
      from True v [unfolded Recurse]
      have "fetch_and_save E url depth parent s = for_links E links (depth + 1) hp s1"
        by (rule fetch_and_save_recurse)
      with "1.prems"(5) have f: "for_links E links (depth + 1) hp s1 = (r, s')" by simp
      from a have "I s1" by simp
      from "1.IH" [OF v [symmetric] Recurse True "1.prems"(1,2,3) this f]
      have "I s' \<and> R s1 s'" .
      with a "1.prems"(3) show ?thesis by (metis (full_types))
    next
      case False
      from False v [unfolded Recurse] have "fetch_and_save E url depth parent s = (None, s1)"
        by (rule fetch_and_save_leaf)
      with "1.prems"(5) have "s' = s1" by simp
      with a show ?thesis by simp
    qed
  qed
next
  case (2 E depth pf s)
  from "2.prems"(5) have "s' = s" by simp
  with "2.prems"(2,4) show ?case by blast
next
  case (3 E link links depth pf s)
  obtain r1 s1 where f: "fetch_and_save E link depth (Some pf) s = (r1, s1)" by (metis surj_pair)
  from "3.IH"(1) [OF "3.prems"(1,2,3,4) f] have a: "I s1 \<and> R s s1" .
  show ?case
  proof (cases r1)
    case None
    with f "3.prems"(5) have g: "for_links E links depth pf s1 = (r, s')" by simp
    from a have "I s1" by simp
    from "3.IH"(2) [OF f [symmetric] None "3.prems"(1,2,3) this g]
    have "I s' \<and> R s1 s'" .
    with a "3.prems"(3) show ?thesis by (metis (full_types))
  next
    case (Some e)
    with f "3.prems"(5) have "s' = s1" by simp
    with a show ?thesis by simp
  qed
qed

lemma processed_append: "processed (a @ b) = processed a @ processed b"
  by (simp add: processed_def)

lemma processed_none: "\<forall>k u. Processing k u \<notin> set out \<Longrightarrow> processed out = []"
  by (induction out) (auto simp: processed_def split: log_line.splits)

lemma processed_Cons: "processed (Processing k u # out) = u # processed out"
  by (simp add: processed_def)

lemma extends_refl: "extends s s"
  by (simp add: extends_def processed_def)

lemma extends_trans:
  assumes "extends a b" and "extends b c"
  shows "extends a c"
proof -
  from assms(1) obtain out1 rs1 ds1 where
    1: "stdout b = stdout a @ out1" "requests b = requests a @ rs1" "written b = written a @ ds1"
       "processed out1 = map req_url rs1" "visited_urls a \<subseteq> visited_urls b"
    unfolding extends_def by blast
  from assms(2) obtain out2 rs2 ds2 where
    2: "stdout c = stdout b @ out2" "requests c = requests b @ rs2" "written c = written b @ ds2"
       "processed out2 = map req_url rs2" "visited_urls b \<subseteq> visited_urls c"
    unfolding extends_def by blast
  have "stdout c = stdout a @ (out1 @ out2)" "requests c = requests a @ (rs1 @ rs2)"
    "written c = written a @ (ds1 @ ds2)" "processed (out1 @ out2) = map req_url (rs1 @ rs2)"
    "visited_urls a \<subseteq> visited_urls c"
    using 1 2 by (auto simp: processed_append)
  then show ?thesis unfolding extends_def by blast
qed

lemma visit_extends:
  assumes "visit E url d p s = (st, s')"
  shows "extends s s'"
proof -
  from visit_summary [OF assms] show ?thesis
  proof (elim disjE exE conjE)
    fix e assume "s' = s"
    then show ?thesis by (simp add: extends_refl)
  next
    fix n out r
    assume a: "stdout s' = stdout s @ Processing d n # out" "\<forall>k u. Processing k u \<notin> set out"
      "requests s' = requests s @ [get_request n]" "written s' = written s"
      "visited_urls s' = visited_urls s"
    have "processed (Processing d n # out) = map req_url [get_request n]"
      using processed_none [OF a(2)] by (simp add: processed_Cons get_request_def)
    with a have "stdout s' = stdout s @ (Processing d n # out) \<and> requests s' = requests s @ [get_request n]
        \<and> written s' = written s @ [] \<and> processed (Processing d n # out) = map req_url [get_request n]
        \<and> visited_urls s \<subseteq> visited_urls s'" by simp
    then show ?thesis unfolding extends_def by blast
  next
    fix n out f links doc
    assume a: "stdout s' = stdout s @ Processing d n # out" "\<forall>k u. Processing k u \<notin> set out"
      "requests s' = requests s @ [get_request n]" "written s' = written s @ [doc]"
      "visited_urls s' = insert f (visited_urls s)"
    have "processed (Processing d n # out) = map req_url [get_request n]"
      using processed_none [OF a(2)] by (simp add: processed_Cons get_request_def)
    with a have "stdout s' = stdout s @ (Processing d n # out) \<and> requests s' = requests s @ [get_request n]
        \<and> written s' = written s @ [doc] \<and> processed (Processing d n # out) = map req_url [get_request n]
        \<and> visited_urls s \<subseteq> visited_urls s'" by auto
    then show ?thesis unfolding extends_def by blast
  qed
qed

lemma visit_one_per_url:
  assumes "visit E url d p s = (st, s')" and "one_per_url s"
  shows "one_per_url s'"
proof -
  from visit_summary [OF assms(1)] show ?thesis
  proof (elim disjE exE conjE)
    fix e assume "s' = s"
    with assms(2) show ?thesis by simp
  next
    fix n out r
    assume "written s' = written s" "visited_urls s' = visited_urls s"
    with assms(2) show ?thesis by (simp add: one_per_url_def)
  next
    fix n out f links doc
    assume a: "f \<notin> visited_urls s" "written s' = written s @ [doc]" "doc_source doc = f"
      "visited_urls s' = insert f (visited_urls s)"
    from a(1) assms(2) have "f \<notin> doc_source ` set (written s)" unfolding one_per_url_def by blast
    with a assms(2) show ?thesis unfolding one_per_url_def by auto
  qed
qed

lemma crawl_extends:
  "fetch_and_save E url depth parent s = (r, s') \<Longrightarrow> extends s s'"
  "for_links E links depth pf s = (r, s') \<Longrightarrow> extends s s'"
proof -
  have 1: "\<forall>url d p s st s'. True \<and> visit E url d p s = (st, s') \<longrightarrow> True \<and> extends s s'"
    using visit_extends by blast
  have 2: "\<forall>s. extends s s" using extends_refl by blast
  have 3: "\<forall>a b c. extends a b \<and> extends b c \<longrightarrow> extends a c" using extends_trans by blast
  show "fetch_and_save E url depth parent s = (r, s') \<Longrightarrow> extends s s'"
    using crawl_preserves(1) [of "\<lambda>_. True" E extends, OF 1 2 3] by blast
  show "for_links E links depth pf s = (r, s') \<Longrightarrow> extends s s'"
    using crawl_preserves(2) [of "\<lambda>_. True" E extends, OF 1 2 3] by blast
qed

lemma crawl_one_per_url:
  "one_per_url s \<Longrightarrow> fetch_and_save E url depth parent s = (r, s') \<Longrightarrow> one_per_url s'"
  "one_per_url s \<Longrightarrow> for_links E links depth pf s = (r, s') \<Longrightarrow> one_per_url s'"
proof -
  have 1: "\<forall>url d p s st s'. one_per_url s \<and> visit E url d p s = (st, s') \<longrightarrow> one_per_url s' \<and> True"
    using visit_one_per_url by blast
  show "one_per_url s \<Longrightarrow> fetch_and_save E url depth parent s = (r, s') \<Longrightarrow> one_per_url s'"
    using crawl_preserves(1) [of one_per_url E "\<lambda>_ _. True", OF 1] by blast
  show "one_per_url s \<Longrightarrow> for_links E links depth pf s = (r, s') \<Longrightarrow> one_per_url s'"
    using crawl_preserves(2) [of one_per_url E "\<lambda>_ _. True", OF 1] by blast
qed

lemma visit_depths:
  assumes "visit E url d p s = (st, s')"
  shows "\<exists>out. stdout s' = stdout s @ out \<and> (\<forall>k u. Processing k u \<in> set out \<longrightarrow> k = d)"
proof -
  from visit_summary [OF assms] show ?thesis
  proof (elim disjE exE conjE)
    fix e assume "s' = s"
    then have "stdout s' = stdout s @ [] \<and> (\<forall>k u. Processing k u \<in> set [] \<longrightarrow> k = d)" by simp
    then show ?thesis by blast
  next
    fix n out r
    assume "stdout s' = stdout s @ Processing d n # out" "\<forall>k u. Processing k u \<notin> set out"
    then have "stdout s' = stdout s @ (Processing d n # out)
        \<and> (\<forall>k u. Processing k u \<in> set (Processing d n # out) \<longrightarrow> k = d)" by auto
    then show ?thesis by blast
  next
    fix n out f links doc
    assume "stdout s' = stdout s @ Processing d n # out" "\<forall>k u. Processing k u \<notin> set out"
    then have "stdout s' = stdout s @ (Processing d n # out)
        \<and> (\<forall>k u. Processing k u \<in> set (Processing d n # out) \<longrightarrow> k = d)" by auto
    then show ?thesis by blast
  qed
qed

lemma fetch_and_save_shallow:
  assumes "\<not> d < max_depth E" and "fetch_and_save E url d p s = (r, s')"
  shows "\<exists>st. visit E url d p s = (st, s')"
proof -
  obtain st s1 where v: "visit E url d p s = (st, s1)" by (metis surj_pair)
  have "s' = s1"
  proof (cases st)
    case (Leave x)
    with v have "fetch_and_save E url d p s = (x, s1)" by (simp only: fetch_and_save_leave)
    with assms(2) show ?thesis by simp
  next
    case (Recurse links hp)
    from assms(1) v [unfolded Recurse] have "fetch_and_save E url d p s = (None, s1)"
      by (rule fetch_and_save_leaf)
    with assms(2) show ?thesis by simp
  qed
  with v show ?thesis by blast
qed

lemma crawl_depths:
  "fetch_and_save E url depth parent s = (r, s') \<Longrightarrow>
     \<exists>out. stdout s' = stdout s @ out
       \<and> (\<forall>k u. Processing k u \<in> set out \<longrightarrow> depth \<le> k \<and> k \<le> max depth (max_depth E))"
  "for_links E links depth pf s = (r, s') \<Longrightarrow>
     \<exists>out. stdout s' = stdout s @ out
       \<and> (\<forall>k u. Processing k u \<in> set out \<longrightarrow> depth \<le> k \<and> k \<le> max depth (max_depth E))"
proof (induction E url depth parent s and E links depth pf s arbitrary: r s' and r s'
    rule: fetch_and_save_for_links.induct)
  case (1 E url depth parent s)
  obtain st s1 where v: "visit E url depth parent s = (st, s1)" by (metis surj_pair)
  from visit_depths [OF v] obtain out1 where
    o1: "stdout s1 = stdout s @ out1" "\<forall>k u. Processing k u \<in> set out1 \<longrightarrow> k = depth" by blast
  then have here: "stdout s1 = stdout s @ out1
      \<and> (\<forall>k u. Processing k u \<in> set out1 \<longrightarrow> depth \<le> k \<and> k \<le> max depth (max_depth E))"
    by auto
  show ?case
  proof (cases "\<exists>links hp. st = Recurse links hp \<and> depth < max_depth E")
    case True
    then obtain links hp where st: "st = Recurse links hp" and lt: "depth < max_depth E" by blast
    from lt v [unfolded st]
    have "fetch_and_save E url depth parent s = for_links E links (depth + 1) hp s1"
      by (rule fetch_and_save_recurse)
    with "1.prems" have f: "for_links E links (depth + 1) hp s1 = (r, s')" by simp
    from "1.IH" [OF v [symmetric] st lt f] obtain out2 where
      o2: "stdout s' = stdout s1 @ out2"
        "\<forall>k u. Processing k u \<in> set out2 \<longrightarrow> depth + 1 \<le> k \<and> k \<le> max (depth + 1) (max_depth E)"
      by blast
    have "stdout s' = stdout s @ (out1 @ out2)" using o1(1) o2(1) by simp
    moreover have "\<forall>k u. Processing k u \<in> set (out1 @ out2) \<longrightarrow> depth \<le> k \<and> k \<le> max depth (max_depth E)"
      using o1(2) o2(2) lt by fastforce
    ultimately show ?thesis by blast
  next
    case False
    have "s' = s1"
    proof (cases st)
      case (Leave x)
      with v have "fetch_and_save E url depth parent s = (x, s1)" by (simp only: fetch_and_save_leave)
      with "1.prems" show ?thesis by simp
    next
      case (Recurse links hp)
      with False have "\<not> depth < max_depth E" by blast
      from this v [unfolded Recurse] have "fetch_and_save E url depth parent s = (None, s1)"
        by (rule fetch_and_save_leaf)
      with "1.prems" show ?thesis by simp
    qed
    with here show ?thesis by blast
  qed
next
  case (2 E depth pf s)
  then have "stdout s' = stdout s @ []" by simp
  then show ?case by force
next
  case (3 E link links depth pf s)
  obtain r1 s1 where f: "fetch_and_save E link depth (Some pf) s = (r1, s1)" by (metis surj_pair)
  from "3.IH"(1) [OF f] obtain out1 where
    o1: "stdout s1 = stdout s @ out1"
      "\<forall>k u. Processing k u \<in> set out1 \<longrightarrow> depth \<le> k \<and> k \<le> max depth (max_depth E)" by blast
  show ?case
  proof (cases r1)
    case None
    with f "3.prems" have g: "for_links E links depth pf s1 = (r, s')" by simp
    from "3.IH"(2) [OF f [symmetric] None g] obtain out2 where
      o2: "stdout s' = stdout s1 @ out2"
        "\<forall>k u. Processing k u \<in> set out2 \<longrightarrow> depth \<le> k \<and> k \<le> max depth (max_depth E)" by blast
    have "stdout s' = stdout s @ (out1 @ out2)" using o1(1) o2(1) by simp
    moreover have "\<forall>k u. Processing k u \<in> set (out1 @ out2) \<longrightarrow> depth \<le> k \<and> k \<le> max depth (max_depth E)"
      using o1(2) o2(2) by auto
    ultimately show ?thesis by blast
  next
    case (Some e)
    with f "3.prems" have "s' = s1" by simp
    with o1 show ?thesis by blast
  qed
qed

lemma for_links_leaf_docs:
  assumes "\<not> d < max_depth E"
  shows "for_links E links d pf s = (r, s') \<Longrightarrow>
     \<exists>ds. written s' = written s @ ds
       \<and> (\<forall>doc \<in> set ds. build_path (valid_ipv6 E) (base_folder E) (Some pf) (doc_source doc)
                            = Inr (doc_path doc))"
proof (induction links arbitrary: s)
  case Nil
  then have "written s' = written s @ []" by simp
  then show ?case by force
next
  case (Cons link links)
  obtain r1 s1 where f: "fetch_and_save E link d (Some pf) s = (r1, s1)" by (metis surj_pair)
  from fetch_and_save_shallow [OF assms f] obtain st where v: "visit E link d (Some pf) s = (st, s1)"
    by blast
  have "\<exists>ds. written s1 = written s @ ds
       \<and> (\<forall>doc \<in> set ds. build_path (valid_ipv6 E) (base_folder E) (Some pf) (doc_source doc)
                            = Inr (doc_path doc))"
    using visit_summary [OF v]
  proof (elim disjE exE conjE)
    fix e assume "s1 = s"
    then have "written s1 = written s @ []" by simp
    then show ?thesis by force
  next
    fix n out x assume "written s1 = written s"
    then have "written s1 = written s @ []" by simp
    then show ?thesis by force
  next
    fix n out f links doc
    assume "written s1 = written s @ [doc]" "doc_source doc = f"
      "build_path (valid_ipv6 E) (base_folder E) (Some pf) f = Inr (doc_path doc)"
    then have "written s1 = written s @ [doc]
       \<and> (\<forall>x \<in> set [doc]. build_path (valid_ipv6 E) (base_folder E) (Some pf) (doc_source x)
                            = Inr (doc_path x))" by simp
    then show ?thesis by blast
  qed
  then obtain ds1 where d1: "written s1 = written s @ ds1"
    "\<forall>doc \<in> set ds1. build_path (valid_ipv6 E) (base_folder E) (Some pf) (doc_source doc)
                            = Inr (doc_path doc)" by blast
  show ?case
  proof (cases r1)
    case None
    with f Cons.prems have "for_links E links d pf s1 = (r, s')" by simp
    from Cons.IH [OF this] obtain ds2 where d2: "written s' = written s1 @ ds2"
      "\<forall>doc \<in> set ds2. build_path (valid_ipv6 E) (base_folder E) (Some pf) (doc_source doc)
                            = Inr (doc_path doc)" by blast
    have "written s' = written s @ (ds1 @ ds2)" using d1(1) d2(1) by simp
    moreover have "\<forall>doc \<in> set (ds1 @ ds2). build_path (valid_ipv6 E) (base_folder E) (Some pf) (doc_source doc)
                            = Inr (doc_path doc)" using d1(2) d2(2) by auto
    ultimately show ?thesis by blast
  next
    case (Some e)
    with f Cons.prems have "s' = s1" by simp
    with d1 show ?thesis by blast
  qed
qed

section \<open>Link discovery\<close>

lemma link_loop_step:
  "link_loop E final_url base (a # as) links =
     (case link_of E final_url base a of
        Some l \<Rightarrow> link_loop E final_url base as (links @ [l])
      | None \<Rightarrow>
          if strip whitespace a = [] \<or> startswith (strip whitespace a) ''#''
          then link_loop E final_url base as links
          else (case urljoin E final_url (strip whitespace a) of
                  Inl e \<Rightarrow> Inl e
                | Inr full_link \<Rightarrow>
                    (case normalize_url (valid_ipv6 E) full_link of
                       Inl e \<Rightarrow> Inl e
                     | Inr norm_link \<Rightarrow>
                         (case urlparse (valid_ipv6 E) norm_link of
                            Inl e \<Rightarrow> Inl e
                          | Inr q \<Rightarrow> link_loop E final_url base as links))))"
  by (simp add: link_of_def Let_def split: sum.splits)

lemma link_loop_map_filter:
  "link_loop E final_url base as links = Inr result \<Longrightarrow>
     result = links @ List.map_filter (link_of E final_url base) as"
proof (induction as arbitrary: links)
  case Nil
  then show ?case by (simp add: List.map_filter_simps)
next
  case (Cons a as)
  show ?case
  proof (cases "link_of E final_url base a")
    case None
    with Cons.prems have "link_loop E final_url base as links = Inr result"
      by (simp add: link_loop_step del: link_loop.simps split: if_splits sum.splits)
    from Cons.IH [OF this] None show ?thesis by (simp add: List.map_filter_simps)
  next
    case (Some l)
    with Cons.prems have "link_loop E final_url base as (links @ [l]) = Inr result"
      by (simp add: link_loop_step del: link_loop.simps)
    from Cons.IH [OF this] Some show ?thesis by (simp add: List.map_filter_simps)
  qed
qed

lemma link_of_Some:
  assumes "link_of E final_url base a = Some l"
  shows "l \<noteq> final_url"
    and "\<exists>q. urlparse (valid_ipv6 E) l = Inr q \<and> netloc q = base"
    and "strip whitespace a \<noteq> [] \<and> \<not> startswith (strip whitespace a) ''#''
         \<and> (\<exists>full_link. urljoin E final_url (strip whitespace a) = Inr full_link
                \<and> normalize_url (valid_ipv6 E) full_link = Inr l)"
proof -
  let ?href = "strip whitespace a"
  from assms have h: "?href \<noteq> []" "\<not> startswith ?href ''#''"
    by (auto simp: link_of_def Let_def split: if_splits)
  with assms obtain full_link where f: "urljoin E final_url ?href = Inr full_link"
    by (cases "urljoin E final_url ?href") (auto simp: link_of_def Let_def)
  with assms h obtain norm_link where n: "normalize_url (valid_ipv6 E) full_link = Inr norm_link"
    by (cases "normalize_url (valid_ipv6 E) full_link") (auto simp: link_of_def Let_def)
  with assms h f obtain q where q: "urlparse (valid_ipv6 E) norm_link = Inr q"
    by (cases "urlparse (valid_ipv6 E) norm_link") (auto simp: link_of_def Let_def)
  from assms h f n q have r: "netloc q = base" "norm_link \<noteq> final_url" "l = norm_link"
    by (auto simp: link_of_def Let_def split: if_splits)
  from r show "l \<noteq> final_url" by simp
  from r q show "\<exists>q. urlparse (valid_ipv6 E) l = Inr q \<and> netloc q = base" by auto
  from h f n r show "?href \<noteq> [] \<and> \<not> startswith ?href ''#''
         \<and> (\<exists>full_link. urljoin E final_url ?href = Inr full_link
                \<and> normalize_url (valid_ipv6 E) full_link = Inr l)" by auto
qed

lemma strip_fragment:
  assumes "startswith a ''#''"
  shows "startswith (strip whitespace a) ''#''"
proof -
  from assms obtain list where a: "a = CHR ''#'' # list"
    by (cases a) (auto simp: startswith_def)
  have w: "CHR ''#'' \<notin> set whitespace" by (simp add: whitespace_def)
  then have l: "lstrip whitespace a = a" by (simp add: lstrip_def a)
  have "CHR ''#'' \<in> set a" by (simp add: a)
  with w have "\<not> (\<forall>c \<in> set a. c \<in> set whitespace)" by blast
  then have n: "rstrip whitespace a \<noteq> []" using rstrip_Nil_iff by blast
  from hd_rstrip [OF n] have "hd (rstrip whitespace a) = CHR ''#''" by (simp add: a)
  with n have "take 1 (rstrip whitespace a) = ''#''"
    by (cases "rstrip whitespace a") simp_all
  then show ?thesis by (simp add: startswith_def strip_def l)
qed

lemma link_of_skips: "a = [] \<or> startswith a ''#'' \<Longrightarrow> link_of E final_url base a = None"
proof (erule disjE)
  assume "a = []"
  then show ?thesis by (simp add: link_of_def strip_def lstrip_def rstrip_def)
next
  assume "startswith a ''#''"
  from strip_fragment [OF this] show ?thesis by (simp add: link_of_def)
qed

text \<open>
  C5. When link discovery returns, the links are those that the \<open>href\<close> values yield one
  by one, in document order and with repetitions kept. Each link is a result of
  \<open>_normalize_url\<close>, that of the \<open>href\<close> value stripped of white space and joined to the
  final URL of the page; its host is the host of the page; it is not the final URL of the
  page. An \<open>href\<close> value that is empty or starts with \<open>#\<close> yields nothing.
\<close>

theorem discover_links_same_host_in_order:
  assumes "discover_links E final_url as = Inr links"
  shows "\<exists>p. urlparse (valid_ipv6 E) final_url = Inr p
      \<and> links = List.map_filter (link_of E final_url (netloc p)) as
      \<and> (\<forall>l \<in> set links.
            l \<noteq> final_url
            \<and> (\<exists>q. urlparse (valid_ipv6 E) l = Inr q \<and> netloc q = netloc p)
            \<and> (\<exists>a \<in> set as. strip whitespace a \<noteq> [] \<and> \<not> startswith (strip whitespace a) ''#''
                  \<and> (\<exists>full_link. urljoin E final_url (strip whitespace a) = Inr full_link
                         \<and> normalize_url (valid_ipv6 E) full_link = Inr l)))
      \<and> (\<forall>a. a = [] \<or> startswith a ''#'' \<longrightarrow> link_of E final_url (netloc p) a = None)"
proof -
  from assms obtain p where p: "urlparse (valid_ipv6 E) final_url = Inr p"
    and l: "link_loop E final_url (netloc p) as [] = Inr links"
    by (auto simp: discover_links_def split: sum.splits)
  from link_loop_map_filter [OF l]
  have m: "links = List.map_filter (link_of E final_url (netloc p)) as" by simp
  have each: "l \<noteq> final_url
            \<and> (\<exists>q. urlparse (valid_ipv6 E) l = Inr q \<and> netloc q = netloc p)
            \<and> (\<exists>a \<in> set as. strip whitespace a \<noteq> [] \<and> \<not> startswith (strip whitespace a) ''#''
                  \<and> (\<exists>full_link. urljoin E final_url (strip whitespace a) = Inr full_link
                         \<and> normalize_url (valid_ipv6 E) full_link = Inr l))"
    if "l \<in> set links" for l
  proof -
    from that m obtain a where a: "a \<in> set as" "link_of E final_url (netloc p) a = Some l"
      by (auto simp: List.map_filter_def)
    from link_of_Some [OF a(2)] a(1) show ?thesis by blast
  qed
  have skips: "\<forall>a. a = [] \<or> startswith a ''#'' \<longrightarrow> link_of E final_url (netloc p) a = None"
    by (intro allI impI) (rule link_of_skips)
  from each have all: "\<forall>l \<in> set links.
            l \<noteq> final_url
            \<and> (\<exists>q. urlparse (valid_ipv6 E) l = Inr q \<and> netloc q = netloc p)
            \<and> (\<exists>a \<in> set as. strip whitespace a \<noteq> [] \<and> \<not> startswith (strip whitespace a) ''#''
                  \<and> (\<exists>full_link. urljoin E final_url (strip whitespace a) = Inr full_link
                         \<and> normalize_url (valid_ipv6 E) full_link = Inr l))"
    by (rule ballI)
  show ?thesis
    by (rule exI [of _ p]) (rule conjI [OF p conjI [OF m conjI [OF all skips]]])
qed

text \<open>
  The theorem at a page of the sample site with seven links: one to another host, a
  fragment, an empty one and one to the page itself yield nothing; the first page is
  linked twice, and is kept twice.
\<close>

theorem discover_links_same_host_in_order_witness:
  "discover_links sample_env ''http://h''
      [page_one, ''http://other.example.com/x'', '' #top'', [], page_two,
       ''  http://h/a_a/a_a_a/a_a_a/a_a/a_a/a_a/a_a/a_a_a_a_a/?q=1  '', ''http://h/#x'']
     = Inr [page_one, page_two, page_one]
   \<and> page_two \<noteq> ''http://h''
   \<and> (\<exists>p q. urlparse (valid_ipv6 sample_env) ''http://h'' = Inr p
          \<and> urlparse (valid_ipv6 sample_env) page_two = Inr q \<and> netloc q = netloc p)"
proof -
  have d: "discover_links sample_env ''http://h''
      [page_one, ''http://other.example.com/x'', '' #top'', [], page_two,
       ''  http://h/a_a/a_a_a/a_a_a/a_a/a_a/a_a/a_a/a_a_a_a_a/?q=1  '', ''http://h/#x'']
     = Inr [page_one, page_two, page_one]"
    by code_simp
  from discover_links_same_host_in_order [OF d] obtain p where
    p: "urlparse (valid_ipv6 sample_env) ''http://h'' = Inr p"
    and a: "\<forall>l \<in> set [page_one, page_two, page_one].
            l \<noteq> ''http://h''
            \<and> (\<exists>q. urlparse (valid_ipv6 sample_env) l = Inr q \<and> netloc q = netloc p)"
    by blast
  from a have "page_two \<noteq> ''http://h''
      \<and> (\<exists>q. urlparse (valid_ipv6 sample_env) page_two = Inr q \<and> netloc q = netloc p)"
    by simp
  with d p show ?thesis by blast
qed

section \<open>The crawl of the sample site\<close>

text \<open>
  The digest of the model on the test vectors of RFC 1321 for the empty string and for
  \<open>abc\<close>, and on the root of the sample site.
\<close>

lemma md5_test_vectors:
  "hexdigest (md5 (encode [])) = ''d41d8cd98f00b204e9800998ecf8427e''"
  "hexdigest (md5 (encode ''abc'')) = ''900150983cd24fb0d6963f7d28e17f72''"
  by code_simp+

lemma sample_digests:
  "hash_prefix_of ''http://h'' = ''f761d50a''"
  "hash_prefix_of page_one = ''202ab455''"
  "hash_prefix_of page_two = ''202ab455''"
  by code_simp+

text \<open>
  The crawl from \<open>http://h/\<close> with \<open>max_depth\<close> 1: three documents are written, the two
  pages of equal digest and file name to the same path; the first page is requested a
  second time and skipped; the page one level further down is never requested.
\<close>

lemma sample_crawl:
  "fetch_and_save sample_env ''http://h/'' 0 None (init sample_env) = (None, sample_result)"
  by code_simp

section \<open>The crawl: requests, failures and the visited set\<close>



text \<open>
  C7, as the code has it. The visited set holds final URLs, those of the responses after
  redirects, and the check of line 57 comes after the request. So a link whose final URL
  is in the visited set is requested once more, and the task stops at the check: it
  prints its \<open>Processing\<close> and \<open>Skip\<close> lines and returns; no document is written, and
  the visited set and the directories are as before.
\<close>

theorem visited_link_is_fetched_not_saved:
  assumes "normalize_url (valid_ipv6 E) link = Inr n"
    and "http_get E (requests s) (get_request n) = Some resp"
    and "normalize_url (valid_ipv6 E) (resp_url resp) = Inr f"
    and "f \<in> visited_urls s"
  shows "fetch_and_save E link depth parent s =
           (None, s\<lparr>requests := requests s @ [get_request n],
                     stdout := stdout s @ [Processing depth n, Skip f]\<rparr>)"
  using visit_skip [OF assms, of depth parent] by (rule fetch_and_save_leave)

text \<open>The theorem at the first page of the sample site, after the crawl.\<close>

theorem visited_link_is_fetched_not_saved_witness:
  "normalize_url (valid_ipv6 sample_env) page_one = Inr page_one
   \<and> http_get sample_env (requests sample_result) (get_request page_one)
        = Some \<lparr>resp_url = page_one,
                 resp_main = Some \<lparr>hrefs = [''http://h/deeper''], markdown = ''# One''\<rparr>\<rparr>
   \<and> page_one \<in> visited_urls sample_result
   \<and> fetch_and_save sample_env page_one 1 (Some ''f761d50a'') sample_result =
        (None, sample_result\<lparr>requests := requests sample_result @ [get_request page_one],
                  stdout := stdout sample_result @ [Processing 1 page_one, Skip page_one]\<rparr>)"
proof -
  let ?resp = "\<lparr>resp_url = page_one,
                 resp_main = Some \<lparr>hrefs = [''http://h/deeper''], markdown = ''# One''\<rparr>\<rparr>"
  have n: "normalize_url (valid_ipv6 sample_env) page_one = Inr page_one" by code_simp
  have h: "http_get sample_env (requests sample_result) (get_request page_one) = Some ?resp"
    by code_simp
  have n': "normalize_url (valid_ipv6 sample_env) (resp_url ?resp) = Inr page_one" using n by simp
  have v: "page_one \<in> visited_urls sample_result" by (simp add: sample_result_def)
  from visited_link_is_fetched_not_saved [OF n h n' v, of 1 "Some ''f761d50a''"] n h v
  show ?thesis by simp
qed

text \<open>
  C7 as stated fails. After the crawl of the sample site the first page is in the visited
  set, and the loop over a list with a link to it sends a request for it. In the crawl
  itself the root links to the first page twice: it is requested twice, and skipped the
  second time.
\<close>

theorem refetch_counterexample:
  "page_one \<in> visited_urls sample_result
   \<and> requests (snd (for_links sample_env [page_one] 1 ''f761d50a'' sample_result))
       = requests sample_result @ [get_request page_one]
   \<and> requests (snd (fetch_and_save sample_env ''http://h/'' 0 None (init sample_env)))
       = map get_request [''http://h'', page_one, page_two, page_one, ''http://h/missing'']
   \<and> stdout (snd (fetch_and_save sample_env ''http://h/'' 0 None (init sample_env)))
       = [Processing 0 ''http://h'', Saved ''output/f761d50a/index.md'',
          Processing 1 page_one, Saved sample_path,
          Processing 1 page_two, Saved sample_path,
          Processing 1 page_one, Skip page_one,
          Processing 1 ''http://h/missing'', Failed ''http://h/missing'']"
proof -
  have "page_one \<in> visited_urls sample_result" by (simp add: sample_result_def)
  moreover have "requests (snd (for_links sample_env [page_one] 1 ''f761d50a'' sample_result))
       = requests sample_result @ [get_request page_one]"
    by code_simp
  ultimately show ?thesis by (simp add: sample_crawl sample_result_def)
qed

text \<open>
  C6, as the code has it. The URL of a task is normalized first, and the result is what
  is logged and what is requested: with \<open>urlparse\<close> accepting the URL, the first line
  that the task prints is \<open>Processing\<close> with the normalized URL, and the first request
  that it sends goes to the normalized URL, with redirects allowed and a timeout of 60.
\<close>

theorem request_goes_to_normalized_url:
  assumes "normalize_url (valid_ipv6 E) url = Inr n"
    and "fetch_and_save E url depth parent s = (r, s')"
  shows "\<exists>out rs. stdout s' = stdout s @ Processing depth n # out
           \<and> requests s' = requests s @ get_request n # rs
           \<and> req_url (get_request n) = n
           \<and> req_allow_redirects (get_request n)
           \<and> req_timeout (get_request n) = 60"
proof -
  obtain st s1 where v: "visit E url depth parent s = (st, s1)" by (metis surj_pair)
  from visit_summary [OF v] assms(1) obtain out1 where
    1: "stdout s1 = stdout s @ Processing depth n # out1" "requests s1 = requests s @ [get_request n]"
    by auto
  have "extends s1 s'"
  proof (cases st)
    case (Leave x)
    with v have "fetch_and_save E url depth parent s = (x, s1)" by (simp only: fetch_and_save_leave)
    with assms(2) show ?thesis by (simp add: extends_refl)
  next
    case (Recurse links hp)
    show ?thesis
    proof (cases "depth < max_depth E")
      case True
      from True v [unfolded Recurse]
      have "fetch_and_save E url depth parent s = for_links E links (depth + 1) hp s1"
        by (rule fetch_and_save_recurse)
      with assms(2) have "for_links E links (depth + 1) hp s1 = (r, s')" by simp
      then show ?thesis by (rule crawl_extends(2))
    next
      case False
      from False v [unfolded Recurse] have "fetch_and_save E url depth parent s = (None, s1)"
        by (rule fetch_and_save_leaf)
      with assms(2) show ?thesis by (simp add: extends_refl)
    qed
  qed
  then obtain out2 rs2 where 2: "stdout s' = stdout s1 @ out2" "requests s' = requests s1 @ rs2"
    unfolding extends_def by blast
  have "stdout s' = stdout s @ Processing depth n # (out1 @ out2)"
    "requests s' = requests s @ get_request n # rs2"
    using 1 2 by simp_all
  then show ?thesis by (auto simp: get_request_def)
qed

text \<open>The theorem at the crawl of the sample site, started with a trailing slash.\<close>

theorem request_goes_to_normalized_url_witness:
  "normalize_url (valid_ipv6 sample_env) ''http://h/'' = Inr ''http://h''
   \<and> (\<exists>out rs. stdout sample_result = stdout (init sample_env) @ Processing 0 ''http://h'' # out
           \<and> requests sample_result = requests (init sample_env) @ get_request ''http://h'' # rs
           \<and> req_url (get_request ''http://h'') = ''http://h''
           \<and> req_allow_redirects (get_request ''http://h'')
           \<and> req_timeout (get_request ''http://h'') = 60)"
proof -
  have n: "normalize_url (valid_ipv6 sample_env) ''http://h/'' = Inr ''http://h''" by code_simp
  from request_goes_to_normalized_url [OF n sample_crawl] n show ?thesis by blast
qed

text \<open>
  C6 as stated fails: the task for \<open>http://h/missing?page=2\<close> sends its request to
  \<open>http://h/missing\<close>, without the query.
\<close>

theorem raw_url_counterexample:
  "requests (snd (fetch_and_save sample_env ''http://h/missing?page=2'' 0 None (init sample_env)))
     = [get_request ''http://h/missing'']
   \<and> req_url (get_request ''http://h/missing'') \<noteq> ''http://h/missing?page=2''"
  by code_simp

section \<open>The crawl: one document for each URL\<close>

lemma file_system_append:
  assumes "written s' = written s @ ds"
  shows "file_system s' = file_system s ++ map_of (rev (map (\<lambda>d. (doc_path d, file_text d)) ds))"
  by (simp add: file_system_def assms)

lemma map_of_rev_docs:
  assumes "map_of (rev (map (\<lambda>d. (doc_path d, file_text d)) ds)) p = Some t"
  shows "\<exists>doc \<in> set ds. doc_path doc = p"
proof -
  from map_of_SomeD [OF assms] show ?thesis by auto
qed

lemma visit_write_step:
  assumes "visit E u d p a = (st, b)"
  shows "written b = written a \<and> visited_urls b = visited_urls a
       \<or> (\<exists>doc. written b = written a @ [doc] \<and> doc_source doc \<notin> visited_urls a
              \<and> visited_urls b = insert (doc_source doc) (visited_urls a))"
  using visit_summary [OF assms] by auto

text \<open>
  C2, as the code has it. In a run that starts with no two documents of the same source
  and every source in the visited set: no two documents written have the same source,
  and every source is in the visited set; documents and visited URLs are only added, and
  no file is deleted. Each step of a task either writes nothing and leaves the visited
  set as it is, or writes one document whose source was not in the visited set (the
  check of line 57 stops any task for a URL that is) and inserts that source. The text of
  a file changes only when a later document, of a source not written before, has the same
  path.
\<close>

theorem one_document_per_url:
  assumes "one_per_url s" and "fetch_and_save E url depth parent s = (r, s')"
  shows "distinct (map doc_source (written s'))
       \<and> doc_source ` set (written s') \<subseteq> visited_urls s'
       \<and> (\<exists>ds. written s' = written s @ ds)
       \<and> visited_urls s \<subseteq> visited_urls s'
       \<and> dom (file_system s) \<subseteq> dom (file_system s')
       \<and> (\<forall>p t. file_system s p = Some t \<and> file_system s' p \<noteq> Some t \<longrightarrow>
             (\<exists>doc \<in> set (written s'). doc_path doc = p
                 \<and> doc_source doc \<notin> doc_source ` set (written s)))
       \<and> (\<forall>u d p a st b. visit E u d p a = (st, b) \<longrightarrow>
             written b = written a \<and> visited_urls b = visited_urls a
             \<or> (\<exists>doc. written b = written a @ [doc] \<and> doc_source doc \<notin> visited_urls a
                    \<and> visited_urls b = insert (doc_source doc) (visited_urls a)))"
proof -
  from crawl_one_per_url(1) [OF assms] have o: "one_per_url s'" .
  then have 1: "distinct (map doc_source (written s'))"
    and 2: "doc_source ` set (written s') \<subseteq> visited_urls s'"
    unfolding one_per_url_def by blast+
  from crawl_extends(1) [OF assms(2)] obtain ds where
    3: "written s' = written s @ ds" and 4: "visited_urls s \<subseteq> visited_urls s'"
    unfolding extends_def by blast
  note fs = file_system_append [OF 3]
  have 5: "dom (file_system s) \<subseteq> dom (file_system s')" unfolding fs by auto
  have 6: "\<exists>doc \<in> set (written s'). doc_path doc = p
                 \<and> doc_source doc \<notin> doc_source ` set (written s)"
    if a: "file_system s p = Some t" "file_system s' p \<noteq> Some t" for p t
  proof -
    from a obtain t' where "map_of (rev (map (\<lambda>d. (doc_path d, file_text d)) ds)) p = Some t'"
      unfolding fs by (auto simp: map_add_def split: option.splits)
    from map_of_rev_docs [OF this] obtain doc where d: "doc \<in> set ds" "doc_path doc = p" by blast
    from 1 3 have "doc_source ` set (written s) \<inter> doc_source ` set ds = {}" by auto
    with d(1) have "doc_source doc \<notin> doc_source ` set (written s)" by blast
    with d 3 show ?thesis by auto
  qed
  from 6 have a6: "\<forall>p t. file_system s p = Some t \<and> file_system s' p \<noteq> Some t \<longrightarrow>
             (\<exists>doc \<in> set (written s'). doc_path doc = p
                 \<and> doc_source doc \<notin> doc_source ` set (written s))"
    by (intro allI impI) (elim conjE)
  have a7: "\<forall>u d p a st b. visit E u d p a = (st, b) \<longrightarrow>
             written b = written a \<and> visited_urls b = visited_urls a
             \<or> (\<exists>doc. written b = written a @ [doc] \<and> doc_source doc \<notin> visited_urls a
                    \<and> visited_urls b = insert (doc_source doc) (visited_urls a))"
    by (intro allI impI) (rule visit_write_step)
  from 3 have a3: "\<exists>ds. written s' = written s @ ds" by (rule exI)
  show ?thesis
    by (rule conjI [OF 1 conjI [OF 2 conjI [OF a3 conjI [OF 4 conjI [OF 5 conjI [OF a6 a7]]]]]])
qed

text \<open>The theorem at the crawl of the sample site.\<close>

theorem one_document_per_url_witness:
  "one_per_url (init sample_env)
   \<and> distinct (map doc_source (written sample_result))
   \<and> doc_source ` set (written sample_result) \<subseteq> visited_urls sample_result
   \<and> dom (file_system (init sample_env)) \<subseteq> dom (file_system sample_result)"
proof -
  have i: "one_per_url (init sample_env)" by (simp add: one_per_url_def init_def)
  from one_document_per_url [OF i sample_crawl] i show ?thesis by blast
qed

text \<open>
  C2 as stated fails: a file can be written a second time. In the crawl of the sample
  site the two pages are different URLs of the same first eight digits of the MD5 and the
  same file name; the document of the second replaces that of the first.
\<close>

theorem overwritten_file_counterexample:
  "written (snd (fetch_and_save sample_env ''http://h/'' 0 None (init sample_env))) =
     [\<lparr>doc_path = ''output/f761d50a/index.md'', doc_source = ''http://h'', doc_body = ''# Root''\<rparr>,
      \<lparr>doc_path = sample_path, doc_source = page_one, doc_body = ''# One''\<rparr>,
      \<lparr>doc_path = sample_path, doc_source = page_two, doc_body = ''# Two''\<rparr>]
   \<and> page_one \<noteq> page_two
   \<and> file_system (snd (fetch_and_save sample_env ''http://h/'' 0 None (init sample_env))) sample_path
       = Some (file_text \<lparr>doc_path = sample_path, doc_source = page_two, doc_body = ''# Two''\<rparr>)"
proof -
  have "page_one \<noteq> page_two" by (simp add: page_one_def page_two_def)
  then show ?thesis by (simp add: sample_crawl sample_result_def file_system_def)
qed

section \<open>The crawl: the depth bound\<close>

text \<open>
  C1. A task that has saved its page goes on to the links exactly when its depth is below
  \<open>max_depth\<close>, with \<open>depth + 1\<close> and the first eight digits of the MD5 of the page's final
  URL as parent folder, and each link is handed on with that depth and that parent folder.
  So in the lines, requests and documents that a task at \<open>depth\<close> adds: there is one
  request for each \<open>Processing\<close> line; the first line is the task's own, at \<open>depth\<close>, and
  all later \<open>Processing\<close> lines have depths from \<open>depth + 1\<close> to \<open>max_depth\<close>; a task whose
  depth is not below \<open>max_depth\<close> sends at most one request and writes at most one
  document; the first document is the task's own, under the parent folder it was given;
  and when \<open>max_depth\<close> is at most \<open>depth + 1\<close>, all later documents are those of its links,
  under the folder named by the digest of its own page. With \<open>max_depth\<close> 1 and a start at
  depth 0, every request comes from a task of depth 0 or 1: no task of depth 2 exists to
  fetch what a page of depth 1 links to.
\<close>

theorem depth_bound:
  assumes "fetch_and_save E url depth parent s = (r, s')"
  shows "\<exists>out rs ds. stdout s' = stdout s @ out \<and> requests s' = requests s @ rs
      \<and> written s' = written s @ ds
      \<and> processed out = map req_url rs
      \<and> (\<forall>k u. Processing k u \<in> set (take 1 out) \<longrightarrow> k = depth)
      \<and> (\<forall>k u. Processing k u \<in> set (tl out) \<longrightarrow> depth + 1 \<le> k \<and> k \<le> max_depth E)
      \<and> (\<not> depth < max_depth E \<longrightarrow> length rs \<le> 1 \<and> length ds \<le> 1)
      \<and> (ds \<noteq> [] \<longrightarrow>
            build_path (valid_ipv6 E) (base_folder E) parent (doc_source (hd ds)) = Inr (doc_path (hd ds)))
      \<and> (max_depth E \<le> depth + 1 \<longrightarrow>
            (\<forall>doc \<in> set (tl ds).
               build_path (valid_ipv6 E) (base_folder E) (Some (hash_prefix_of (doc_source (hd ds))))
                 (doc_source doc) = Inr (doc_path doc)))
      \<and> (\<forall>links hp s1. visit E url depth parent s = (Recurse links hp, s1) \<longrightarrow>
            hp = hash_prefix_of (doc_source (last (written s1)))
            \<and> fetch_and_save E url depth parent s =
                (if depth < max_depth E then for_links E links (depth + 1) hp s1 else (None, s1)))
      \<and> (\<forall>link links d hp a.
            for_links E (link # links) d hp a =
              (case fetch_and_save E link d (Some hp) a of
                 (None, b) \<Rightarrow> for_links E links d hp b
               | (Some e, b) \<Rightarrow> (Some e, b)))"
proof -
  from crawl_extends(1) [OF assms] obtain out rs ds where
    e: "stdout s' = stdout s @ out" "requests s' = requests s @ rs" "written s' = written s @ ds"
       "processed out = map req_url rs"
    unfolding extends_def by blast
  obtain st s1 where v: "visit E url depth parent s = (st, s1)" by (metis surj_pair)
  note sm = visit_summary [OF v]
  have one: "length rs1 \<le> 1 \<and> length ds1 \<le> 1"
    if "requests s1 = requests s @ rs1" "written s1 = written s @ ds1" for rs1 ds1
    using sm that by auto
  have leaf: "\<not> depth < max_depth E \<longrightarrow> length rs \<le> 1 \<and> length ds \<le> 1"
  proof
    assume "\<not> depth < max_depth E"
    from fetch_and_save_shallow [OF this assms] v have "s' = s1" by simp
    with e(2,3) one show "length rs \<le> 1 \<and> length ds \<le> 1" by simp
  qed
  have own: "\<exists>o1. (stdout s1 = stdout s \<and> o1 = [] \<or> (\<exists>n ol. stdout s1 = stdout s @ o1 \<and> o1 = Processing depth n # ol
                \<and> (\<forall>k u. Processing k u \<notin> set ol)))"
    using sm by auto
  have lines: "(\<forall>k u. Processing k u \<in> set (take 1 out) \<longrightarrow> k = depth)
      \<and> (\<forall>k u. Processing k u \<in> set (tl out) \<longrightarrow> depth + 1 \<le> k \<and> k \<le> max_depth E)"
  proof (cases "\<exists>links hp. st = Recurse links hp \<and> depth < max_depth E")
    case True
    then obtain links hp where st: "st = Recurse links hp" and lt: "depth < max_depth E" by blast
    from lt v [unfolded st]
    have "fetch_and_save E url depth parent s = for_links E links (depth + 1) hp s1"
      by (rule fetch_and_save_recurse)
    with assms have f: "for_links E links (depth + 1) hp s1 = (r, s')" by simp
    from crawl_depths(2) [OF f] lt obtain out2 where
      o2: "stdout s' = stdout s1 @ out2"
        "\<forall>k u. Processing k u \<in> set out2 \<longrightarrow> depth + 1 \<le> k \<and> k \<le> max_depth E"
      by (auto simp: max_def)
    from sm st obtain n ol where
      o1: "stdout s1 = stdout s @ Processing depth n # ol" "\<forall>k u. Processing k u \<notin> set ol"
      by auto
    from e(1) o1(1) o2(1) have "out = Processing depth n # (ol @ out2)" by simp
    with o1(2) o2(2) show ?thesis by auto
  next
    case False
    have "s' = s1"
    proof (cases st)
      case (Leave x)
      with v have "fetch_and_save E url depth parent s = (x, s1)" by (simp only: fetch_and_save_leave)
      with assms show ?thesis by simp
    next
      case (Recurse links hp)
      with False have "\<not> depth < max_depth E" by blast
      from fetch_and_save_shallow [OF this assms] v show ?thesis by simp
    qed
    with own e(1) show ?thesis by auto
  qed
  have place: "(ds \<noteq> [] \<longrightarrow>
        build_path (valid_ipv6 E) (base_folder E) parent (doc_source (hd ds)) = Inr (doc_path (hd ds)))
      \<and> (max_depth E \<le> depth + 1 \<longrightarrow>
            (\<forall>doc \<in> set (tl ds).
               build_path (valid_ipv6 E) (base_folder E) (Some (hash_prefix_of (doc_source (hd ds))))
                 (doc_source doc) = Inr (doc_path doc)))"
  proof (cases st)
    case (Leave x)
    with v have "fetch_and_save E url depth parent s = (x, s1)" by (simp only: fetch_and_save_leave)
    with assms have "s' = s1" by simp
    moreover from sm Leave have "written s1 = written s" by auto
    ultimately have "ds = []" using e(3) by simp
    then show ?thesis by simp
  next
    case (Recurse links hp)
    with sm obtain doc where
      d: "written s1 = written s @ [doc]" "hp = hash_prefix_of (doc_source doc)"
         "build_path (valid_ipv6 E) (base_folder E) parent (doc_source doc) = Inr (doc_path doc)"
      by auto
    show ?thesis
    proof (cases "depth < max_depth E")
      case False
      from fetch_and_save_shallow [OF False assms] v have "s' = s1" by simp
      with e(3) d(1) have "ds = [doc]" by simp
      with d(3) show ?thesis by simp
    next
      case True
      from True v [unfolded Recurse]
      have "fetch_and_save E url depth parent s = for_links E links (depth + 1) hp s1"
        by (rule fetch_and_save_recurse)
      with assms have f: "for_links E links (depth + 1) hp s1 = (r, s')" by simp
      from crawl_extends(2) [OF f] obtain ds2 where d2: "written s' = written s1 @ ds2"
        unfolding extends_def by blast
      with e(3) d(1) have ds: "ds = doc # ds2" by simp
      have "\<forall>x \<in> set ds2. build_path (valid_ipv6 E) (base_folder E) (Some hp) (doc_source x)
                 = Inr (doc_path x)" if "max_depth E \<le> depth + 1"
      proof -
        from that have "\<not> depth + 1 < max_depth E" by simp
        from for_links_leaf_docs [OF this f] d2 show ?thesis by auto
      qed
      with ds d(2,3) show ?thesis by simp
    qed
  qed
  have step: "\<forall>links hp s2. visit E url depth parent s = (Recurse links hp, s2) \<longrightarrow>
            hp = hash_prefix_of (doc_source (last (written s2)))
            \<and> fetch_and_save E url depth parent s =
                (if depth < max_depth E then for_links E links (depth + 1) hp s2 else (None, s2))"
  proof (intro allI impI)
    fix links hp s2
    assume a: "visit E url depth parent s = (Recurse links hp, s2)"
    from visit_summary [OF a] have "hp = hash_prefix_of (doc_source (last (written s2)))" by auto
    moreover have "fetch_and_save E url depth parent s =
                (if depth < max_depth E then for_links E links (depth + 1) hp s2 else (None, s2))"
      using a by (simp add: fetch_and_save.simps)
    ultimately show "hp = hash_prefix_of (doc_source (last (written s2)))
            \<and> fetch_and_save E url depth parent s =
                (if depth < max_depth E then for_links E links (depth + 1) hp s2 else (None, s2))"
      by (rule conjI)
  qed
  have loop: "\<forall>link links d hp a.
            for_links E (link # links) d hp a =
              (case fetch_and_save E link d (Some hp) a of
                 (None, b) \<Rightarrow> for_links E links d hp b
               | (Some e, b) \<Rightarrow> (Some e, b))"
    by simp
  from lines have l1: "\<forall>k u. Processing k u \<in> set (take 1 out) \<longrightarrow> k = depth"
    and l2: "\<forall>k u. Processing k u \<in> set (tl out) \<longrightarrow> depth + 1 \<le> k \<and> k \<le> max_depth E"
    by (rule conjunct1, rule conjunct2)
  from place have p1: "ds \<noteq> [] \<longrightarrow>
        build_path (valid_ipv6 E) (base_folder E) parent (doc_source (hd ds)) = Inr (doc_path (hd ds))"
    and p2: "max_depth E \<le> depth + 1 \<longrightarrow>
            (\<forall>doc \<in> set (tl ds).
               build_path (valid_ipv6 E) (base_folder E) (Some (hash_prefix_of (doc_source (hd ds))))
                 (doc_source doc) = Inr (doc_path doc))"
    by (rule conjunct1, rule conjunct2)
  show ?thesis
    by (rule exI [of _ out], rule exI [of _ rs], rule exI [of _ ds])
       (rule conjI [OF e(1) conjI [OF e(2) conjI [OF e(3) conjI [OF e(4) conjI [OF l1 conjI [OF l2
          conjI [OF leaf conjI [OF p1 conjI [OF p2 conjI [OF step loop]]]]]]]]]])
qed

text \<open>
  The theorem at the crawl of the sample site, \<open>max_depth\<close> 1, from depth 0: the page that
  the first page links to is never requested, and the documents of the two pages lie
  under the folder of the root's digest.
\<close>

theorem depth_bound_witness:
  "\<exists>out rs ds. stdout sample_result = stdout (init sample_env) @ out
      \<and> requests sample_result = requests (init sample_env) @ rs
      \<and> written sample_result = written (init sample_env) @ ds
      \<and> processed out = map req_url rs
      \<and> ''http://h/deeper'' \<notin> set (map req_url rs)
      \<and> (\<forall>k u. Processing k u \<in> set (tl out) \<longrightarrow> k = 1)
      \<and> (\<forall>doc \<in> set (tl ds).
               build_path (\<lambda>_. False) ''output'' (Some (hash_prefix_of (doc_source (hd ds))))
                 (doc_source doc) = Inr (doc_path doc))"
proof -
  have m: "max_depth sample_env = 1" "valid_ipv6 sample_env = (\<lambda>_. False)"
    "base_folder sample_env = ''output''"
    by (simp_all add: sample_env_def)
  from depth_bound [OF sample_crawl] obtain out rs ds where
    a: "stdout sample_result = stdout (init sample_env) @ out"
       "requests sample_result = requests (init sample_env) @ rs"
       "written sample_result = written (init sample_env) @ ds"
       "processed out = map req_url rs"
       "\<forall>k u. Processing k u \<in> set (tl out) \<longrightarrow> 0 + 1 \<le> k \<and> k \<le> max_depth sample_env"
       "max_depth sample_env \<le> 0 + 1 \<longrightarrow>
            (\<forall>doc \<in> set (tl ds).
               build_path (valid_ipv6 sample_env) (base_folder sample_env)
                 (Some (hash_prefix_of (doc_source (hd ds))))
                 (doc_source doc) = Inr (doc_path doc))"
    by blast
  from a(2) have "rs = requests sample_result" by (simp add: init_def)
  then have n: "''http://h/deeper'' \<notin> set (map req_url rs)"
    by (simp add: sample_result_def get_request_def page_one_def page_two_def)
  from a(5) have k: "\<forall>k u. Processing k u \<in> set (tl out) \<longrightarrow> k = 1" unfolding m by auto
  from a(6) have d: "\<forall>doc \<in> set (tl ds).
               build_path (\<lambda>_. False) ''output'' (Some (hash_prefix_of (doc_source (hd ds))))
                 (doc_source doc) = Inr (doc_path doc)" unfolding m by simp
  show ?thesis
    by (rule exI [of _ out], rule exI [of _ rs], rule exI [of _ ds])
       (rule conjI [OF a(1) conjI [OF a(2) conjI [OF a(3) conjI [OF a(4) conjI [OF n conjI [OF k d]]]]]])
qed

end
